theory Spec2Isabelle
  imports Complex_Main "HOL-Library.Log_Nat"
begin

section \<open>Forcing-file generation: the embedding\<close>

text \<open>
  Shallow embedding of \<^verbatim>\<open>examples/create_forcing_files.py\<close> (class
  \<^verbatim>\<open>ForcingFileGenerator\<close>).

  Conventions. Python integers are \<open>int\<close>. Python floats are binary64 numbers: a finite
  one is the real number it denotes, and every float operation of the source rounds its
  exact result to the nearest binary64 number, ties to even (\<open>b64\<close>). A number the caller
  passes in is the real number the caller wrote. The two that the source computes with,
  \<open>lambda\<close> and \<open>time_step_hours\<close>, are read as the float nearest to it, as Python reads a
  literal; a number that is a float already is left as it is by that. The numbers that are
  only stored, copied and compared (boundary values, discharges, tracer values) are kept
  as given. Infinities and NaN are modelled where the source can produce them from finite
  floats, which is the arithmetic of line 42 (\<open>pyfloat\<close>); with a finite \<open>lambda\<close> the
  quotients, differences and products of the edge loops stay within \<open>[0, 1]\<close> and within
  \<open>lambda\<close> in magnitude and cannot overflow. Zero has one sign. The later narrowing to the
  file's \<^verbatim>\<open>f4\<close> variables and the limits of memory are not part of the model.

  A numpy array of shape \<open>(time, Nz, Ny, Nx)\<close> is a record of its shape and its cells as
  nested lists, outermost index first. Every Python exception is a value of \<open>error\<close>; a
  function that can raise returns \<open>error + 'a\<close>. The netCDF dataset is a recorder of the
  operations performed on it (attribute assignments and the console output are left out);
  the netCDF library itself is assumed not to fail.
\<close>

subsection \<open>Exceptions and control flow\<close>

datatype error =
    AssertionError string
  | IndexError
  | KeyError string
  | OverflowError
  | ValueError
  | ZeroDivisionError

definition bindE :: "error + 'a \<Rightarrow> ('a \<Rightarrow> error + 'b) \<Rightarrow> error + 'b" where
  "bindE m f = (case m of Inl e \<Rightarrow> Inl e | Inr x \<Rightarrow> f x)"

text \<open>\<^verbatim>\<open>for x in xs: body\<close> over a state, stopping at the first exception.\<close>

primrec for_each :: "('x \<Rightarrow> 's \<Rightarrow> error + 's) \<Rightarrow> 'x list \<Rightarrow> 's \<Rightarrow> error + 's" where
  "for_each body [] s = Inr s"
| "for_each body (x # xs) s = bindE (body x s) (for_each body xs)"

subsection \<open>Binary64 arithmetic\<close>

text \<open>\<open>pow2 k\<close> is \<open>2\<close> to the power \<open>k\<close>; \<open>round_even\<close> rounds to the nearest integer, a tie
  to the even one; \<open>binade x\<close> is the \<open>k\<close> with \<open>2^k \<le> x < 2^(k+1)\<close>, for a positive \<open>x\<close>.\<close>

definition pow2 :: "int \<Rightarrow> real" where
  "pow2 k = (if 0 \<le> k then 2 ^ nat k else 1 / 2 ^ nat (- k))"

definition round_even :: "real \<Rightarrow> int" where
  "round_even r =
     (let f = \<lfloor>r\<rfloor>; d = r - of_int f
      in if d < 1 / 2 then f else if 1 / 2 < d then f + 1 else if even f then f else f + 1)"

definition binade :: "real \<Rightarrow> int" where
  "binade x = (if 1 \<le> x then bitlen \<lfloor>x\<rfloor> - 1 else - bitlen (\<lceil>1 / x\<rceil> - 1))"

text \<open>Rounding to binary64: 53 significant bits, so the spacing at a positive \<open>a\<close> is
  \<open>2^(binade a - 52)\<close>, and \<open>2^-1074\<close> below the smallest normal number \<open>2^-1022\<close>. The
  result is a binary64 number when it is below \<open>2^1024\<close> in magnitude; where the source
  can exceed that, the overflow is a case of the model.\<close>

definition ulp_exp :: "real \<Rightarrow> int" where
  "ulp_exp a = (if a < pow2 (- 1022) then - 1074 else binade a - 52)"

definition b64_mag :: "real \<Rightarrow> real" where
  "b64_mag a = of_int (round_even (a / pow2 (ulp_exp a))) * pow2 (ulp_exp a)"

definition b64 :: "real \<Rightarrow> real" where
  "b64 x = (if x < 0 then - b64_mag (- x) else if x = 0 then 0 else b64_mag x)"

text \<open>A finite binary64 number.\<close>

definition binary64 :: "real \<Rightarrow> bool" where
  "binary64 x \<longleftrightarrow> b64 x = x \<and> \<bar>x\<bar> < pow2 1024"

text \<open>Floats with the infinities and NaN, for line 42: the result of an operation on
  finite floats (\<open>to_float\<close>), \<^verbatim>\<open>a * b\<close>, \<^verbatim>\<open>a / b\<close> for a non-zero \<open>b\<close>, and the conversion of a
  Python integer, which raises OverflowError when the integer is too large.\<close>

datatype pyfloat = Fin real | PosInf | NegInf | NaN

definition to_float :: "real \<Rightarrow> pyfloat" where
  "to_float x = (let r = b64 x
           in if pow2 1024 \<le> r then PosInf else if r \<le> - pow2 1024 then NegInf else Fin r)"

definition signed_inf :: "bool \<Rightarrow> pyfloat" where
  "signed_inf positive = (if positive then PosInf else NegInf)"

fun fmul :: "pyfloat \<Rightarrow> pyfloat \<Rightarrow> pyfloat" where
  "fmul NaN b = NaN"
| "fmul a NaN = NaN"
| "fmul (Fin x) (Fin y) = to_float (x * y)"
| "fmul (Fin x) PosInf = (if x = 0 then NaN else signed_inf (0 < x))"
| "fmul (Fin x) NegInf = (if x = 0 then NaN else signed_inf (x < 0))"
| "fmul PosInf (Fin y) = (if y = 0 then NaN else signed_inf (0 < y))"
| "fmul NegInf (Fin y) = (if y = 0 then NaN else signed_inf (y < 0))"
| "fmul PosInf PosInf = PosInf"
| "fmul PosInf NegInf = NegInf"
| "fmul NegInf PosInf = NegInf"
| "fmul NegInf NegInf = PosInf"

fun fdiv :: "pyfloat \<Rightarrow> pyfloat \<Rightarrow> pyfloat" where
  "fdiv NaN b = NaN"
| "fdiv a NaN = NaN"
| "fdiv (Fin x) (Fin y) = to_float (x / y)"
| "fdiv (Fin x) PosInf = Fin 0"
| "fdiv (Fin x) NegInf = Fin 0"
| "fdiv PosInf (Fin y) = signed_inf (0 < y)"
| "fdiv NegInf (Fin y) = signed_inf (y < 0)"
| "fdiv PosInf PosInf = NaN"
| "fdiv PosInf NegInf = NaN"
| "fdiv NegInf PosInf = NaN"
| "fdiv NegInf NegInf = NaN"

definition float_of_int :: "int \<Rightarrow> error + pyfloat" where
  "float_of_int n =
     (let r = b64 (of_int n)
      in if pow2 1024 \<le> \<bar>r\<bar> then Inl OverflowError else Inr (Fin r))"

subsection \<open>Python built-ins\<close>

text \<open>\<^verbatim>\<open>range(lo, hi)\<close>; \<^verbatim>\<open>range(n)\<close> is \<open>py_range 0 n\<close>.\<close>

definition py_range :: "int \<Rightarrow> int \<Rightarrow> int list" where
  "py_range lo hi = [lo..hi - 1]"

text \<open>\<^verbatim>\<open>a / b\<close> on two Python integers (true division): the quotient correctly rounded,
  OverflowError when that is too large for a float.\<close>

definition py_truediv :: "int \<Rightarrow> int \<Rightarrow> error + real" where
  "py_truediv a b =
     (if b = 0 then Inl ZeroDivisionError
      else let r = b64 (real_of_int a / real_of_int b)
           in if pow2 1024 \<le> \<bar>r\<bar> then Inl OverflowError else Inr r)"

text \<open>\<^verbatim>\<open>d.get(key, default)\<close> and \<^verbatim>\<open>d[key]\<close> on a dictionary.\<close>

definition dict_get :: "(string \<rightharpoonup> 'v) \<Rightarrow> string \<Rightarrow> 'v \<Rightarrow> 'v" where
  "dict_get d key dflt = (case d key of None \<Rightarrow> dflt | Some v \<Rightarrow> v)"

definition dict_item :: "(string \<rightharpoonup> 'v) \<Rightarrow> string \<Rightarrow> error + 'v" where
  "dict_item d key = (case d key of None \<Rightarrow> Inl (KeyError key) | Some v \<Rightarrow> Inr v)"

subsection \<open>numpy arrays\<close>

record ndarray =
  n_t :: nat
  n_z :: nat
  n_y :: nat
  n_x :: nat
  cells :: "real list list list list"

definition cell :: "ndarray \<Rightarrow> nat \<Rightarrow> nat \<Rightarrow> nat \<Rightarrow> nat \<Rightarrow> real" where
  "cell a t k j i = cells a ! t ! k ! j ! i"

text \<open>\<^verbatim>\<open>np.full((T, Z, Y, X), v)\<close>; \<^verbatim>\<open>np.zeros(shape)\<close> is \<open>np_full \<dots> 0\<close>. numpy
  refuses a negative dimension with ValueError.\<close>

definition np_full :: "int \<Rightarrow> int \<Rightarrow> int \<Rightarrow> int \<Rightarrow> real \<Rightarrow> error + ndarray" where
  "np_full T Z Y X v =
     (if T < 0 \<or> Z < 0 \<or> Y < 0 \<or> X < 0 then Inl ValueError
      else Inr \<lparr>n_t = nat T, n_z = nat Z, n_y = nat Y, n_x = nat X,
                cells = replicate (nat T) (replicate (nat Z) (replicate (nat Y) (replicate (nat X) v)))\<rparr>)"

text \<open>An integer index into an axis of extent \<open>n\<close>: a negative index counts from the end,
  anything outside \<open>[-n, n)\<close> raises IndexError.\<close>

definition norm_index :: "nat \<Rightarrow> int \<Rightarrow> error + nat" where
  "norm_index n i =
     (if 0 \<le> i \<and> i < int n then Inr (nat i)
      else if - int n \<le> i \<and> i < 0 then Inr (nat (int n + i))
      else Inl IndexError)"

text \<open>\<^verbatim>\<open>xs[i]\<close> on a Python list follows the same rule.\<close>

definition py_getitem :: "'a list \<Rightarrow> int \<Rightarrow> error + 'a" where
  "py_getitem xs i = bindE (norm_index (length xs) i) (\<lambda>j. Inr (xs ! j))"

text \<open>\<^verbatim>\<open>a[t, k, :, i] = f(a[t, k, :, i])\<close>, elementwise.\<close>

definition update_col :: "ndarray \<Rightarrow> int \<Rightarrow> int \<Rightarrow> int \<Rightarrow> (real \<Rightarrow> real) \<Rightarrow> error + ndarray" where
  "update_col a t k i f =
     bindE (norm_index (n_t a) t) (\<lambda>t'.
     bindE (norm_index (n_z a) k) (\<lambda>k'.
     bindE (norm_index (n_x a) i) (\<lambda>i'.
       Inr (a\<lparr>cells := (cells a)[t' := (cells a ! t')[k' :=
              map (\<lambda>row. row[i' := f (row ! i')]) (cells a ! t' ! k')]]\<rparr>))))"

text \<open>\<^verbatim>\<open>a[t, k, j, :] = f(a[t, k, j, :])\<close>, elementwise.\<close>

definition update_row :: "ndarray \<Rightarrow> int \<Rightarrow> int \<Rightarrow> int \<Rightarrow> (real \<Rightarrow> real) \<Rightarrow> error + ndarray" where
  "update_row a t k j f =
     bindE (norm_index (n_t a) t) (\<lambda>t'.
     bindE (norm_index (n_z a) k) (\<lambda>k'.
     bindE (norm_index (n_y a) j) (\<lambda>j'.
       Inr (a\<lparr>cells := (cells a)[t' := (cells a ! t')[k' :=
              (cells a ! t' ! k')[j' := map f (cells a ! t' ! k' ! j')]]]\<rparr>))))"

text \<open>\<^verbatim>\<open>a[:, k, j, i] = v\<close>.\<close>

definition assign_site :: "ndarray \<Rightarrow> int \<Rightarrow> int \<Rightarrow> int \<Rightarrow> real \<Rightarrow> error + ndarray" where
  "assign_site a k j i v =
     bindE (norm_index (n_z a) k) (\<lambda>k'.
     bindE (norm_index (n_y a) j) (\<lambda>j'.
     bindE (norm_index (n_x a) i) (\<lambda>i'.
       Inr (a\<lparr>cells := map (\<lambda>vol. vol[k' := (vol ! k')[j' := (vol ! k' ! j')[i' := v]]])
                              (cells a)\<rparr>))))"

text \<open>\<^verbatim>\<open>a[t, k, :, i] = v\<close> and \<^verbatim>\<open>a[t, k, :, i] = np.maximum(a[t, k, :, i], s)\<close>;
  the same along a row.\<close>

definition assign_col :: "ndarray \<Rightarrow> int \<Rightarrow> int \<Rightarrow> int \<Rightarrow> real \<Rightarrow> error + ndarray" where
  "assign_col a t k i v = update_col a t k i (\<lambda>_. v)"

definition maximum_col :: "ndarray \<Rightarrow> int \<Rightarrow> int \<Rightarrow> int \<Rightarrow> real \<Rightarrow> error + ndarray" where
  "maximum_col a t k i s = update_col a t k i (\<lambda>x. max x s)"

definition assign_row :: "ndarray \<Rightarrow> int \<Rightarrow> int \<Rightarrow> int \<Rightarrow> real \<Rightarrow> error + ndarray" where
  "assign_row a t k j v = update_row a t k j (\<lambda>_. v)"

definition maximum_row :: "ndarray \<Rightarrow> int \<Rightarrow> int \<Rightarrow> int \<Rightarrow> real \<Rightarrow> error + ndarray" where
  "maximum_row a t k j s = update_row a t k j (\<lambda>x. max x s)"

text \<open>\<^verbatim>\<open>np.arange(0, stop, step)\<close> on floats. The length is the ceiling of the float
  quotient \<open>stop / step\<close> (none when that is not positive); the division raises
  ZeroDivisionError for a zero step; numpy raises ValueError when the quotient is NaN
  (\<^verbatim>\<open>cannot compute length\<close>) and when the length does not fit a signed 64-bit index
  (\<^verbatim>\<open>Maximum allowed size exceeded\<close>). Element \<open>i\<close> is the float product of \<open>i\<close> and the
  step. An infinite step leaves length \<open>0\<close> or a NaN quotient. A quotient of exactly
  \<open>2^63\<close> passes numpy's range test and is then converted with undefined result; the model
  raises there as well.\<close>

definition np_arange :: "pyfloat \<Rightarrow> pyfloat \<Rightarrow> error + real list" where
  "np_arange stop step =
     (if step = Fin 0 then Inl ZeroDivisionError
      else case fdiv stop step of
             NaN \<Rightarrow> Inl ValueError
           | PosInf \<Rightarrow> Inl ValueError
           | NegInf \<Rightarrow> Inl ValueError
           | Fin q \<Rightarrow>
               if \<lceil>q\<rceil> < - (2 ^ 63) \<or> 2 ^ 63 - 1 < \<lceil>q\<rceil> then Inl ValueError
               else (case step of
                       Fin s \<Rightarrow> Inr (map (\<lambda>i. b64 (b64 (real i) * s)) [0..<nat \<lceil>q\<rceil>])
                     | _ \<Rightarrow> Inr []))"

subsection \<open>The generator: \<^verbatim>\<open>ForcingFileGenerator.__init__\<close>\<close>

record generator =
  Nx :: int
  Ny :: int
  Nz :: int
  start_date :: string
  time_step_hours :: real
  num_steps :: int
  times :: "real list"

text \<open>Line 42: \<^verbatim>\<open>num_steps * time_step_hours * 3600\<close> is evaluated from the left, the integer
  converted to a float first, and before the step \<^verbatim>\<open>time_step_hours * 3600\<close>.\<close>

definition init_generator ::
  "int \<Rightarrow> int \<Rightarrow> int \<Rightarrow> string \<Rightarrow> real \<Rightarrow> int \<Rightarrow> error + generator" where
  "init_generator nx ny nz sd hours steps =
     bindE (float_of_int steps) (\<lambda>n.
     let h = to_float hours;
         stop = fmul (fmul n h) (Fin 3600);
         step = fmul h (Fin 3600)
     in bindE (np_arange stop step) (\<lambda>ts.
          Inr \<lparr>Nx = nx, Ny = ny, Nz = nz, start_date = sd, time_step_hours = hours,
               num_steps = steps, times = ts\<rparr>))"

subsection \<open>Boundary arrays: the array construction of \<^verbatim>\<open>create_boundary_file\<close>\<close>

type_synonym tracer_config = "string \<rightharpoonup> real"

text \<open>The four edge loops of one \<open>(t, k)\<close> iteration, on the pair \<open>(data, data_lambda)\<close>.\<close>

definition west_boundary ::
  "generator \<Rightarrow> int \<Rightarrow> real \<Rightarrow> real \<Rightarrow> int \<Rightarrow> int \<Rightarrow> ndarray \<times> ndarray \<Rightarrow> error + ndarray \<times> ndarray" where
  "west_boundary g buffer_width west_val lambda_val t k =
     for_each (\<lambda>i (d, dl).
        bindE (py_truediv i buffer_width) (\<lambda>q.
        let weight = b64 (1 - q) in
        bindE (assign_col d t k i west_val) (\<lambda>d'.
        bindE (maximum_col dl t k i (b64 (lambda_val * weight))) (\<lambda>dl'.
        Inr (d', dl')))))
      (py_range 0 (min buffer_width (Nx g)))"

definition east_boundary ::
  "generator \<Rightarrow> int \<Rightarrow> real \<Rightarrow> real \<Rightarrow> int \<Rightarrow> int \<Rightarrow> ndarray \<times> ndarray \<Rightarrow> error + ndarray \<times> ndarray" where
  "east_boundary g buffer_width east_val lambda_val t k =
     for_each (\<lambda>i (d, dl).
        bindE (py_truediv (Nx g - 1 - i) buffer_width) (\<lambda>q.
        let weight = b64 (1 - q) in
        bindE (assign_col d t k i east_val) (\<lambda>d'.
        bindE (maximum_col dl t k i (b64 (lambda_val * weight))) (\<lambda>dl'.
        Inr (d', dl')))))
      (py_range (max 0 (Nx g - buffer_width)) (Nx g))"

definition south_boundary ::
  "generator \<Rightarrow> int \<Rightarrow> real \<Rightarrow> real \<Rightarrow> int \<Rightarrow> int \<Rightarrow> ndarray \<times> ndarray \<Rightarrow> error + ndarray \<times> ndarray" where
  "south_boundary g buffer_width south_val lambda_val t k =
     for_each (\<lambda>j (d, dl).
        bindE (py_truediv j buffer_width) (\<lambda>q.
        let weight = b64 (1 - q) in
        bindE (assign_row d t k j south_val) (\<lambda>d'.
        bindE (maximum_row dl t k j (b64 (lambda_val * weight))) (\<lambda>dl'.
        Inr (d', dl')))))
      (py_range 0 (min buffer_width (Ny g)))"

definition north_boundary ::
  "generator \<Rightarrow> int \<Rightarrow> real \<Rightarrow> real \<Rightarrow> int \<Rightarrow> int \<Rightarrow> ndarray \<times> ndarray \<Rightarrow> error + ndarray \<times> ndarray" where
  "north_boundary g buffer_width north_val lambda_val t k =
     for_each (\<lambda>j (d, dl).
        bindE (py_truediv (Ny g - 1 - j) buffer_width) (\<lambda>q.
        let weight = b64 (1 - q) in
        bindE (assign_row d t k j north_val) (\<lambda>d'.
        bindE (maximum_row dl t k j (b64 (lambda_val * weight))) (\<lambda>dl'.
        Inr (d', dl')))))
      (py_range (max 0 (Ny g - buffer_width)) (Ny g))"

text \<open>Lines 97 to 150: both arrays of one tracer, from its configuration. \<open>lambda\<close> is read
  as a float, so that the default \<^verbatim>\<open>1e-4\<close> is the float nearest to one ten-thousandth.\<close>

definition boundary_arrays ::
  "generator \<Rightarrow> tracer_config \<Rightarrow> int \<Rightarrow> error + ndarray \<times> ndarray" where
  "boundary_arrays g tracer_config buffer_width =
     bindE (np_full (num_steps g) (Nz g) (Ny g) (Nx g) (- 999)) (\<lambda>data.
     bindE (np_full (num_steps g) (Nz g) (Ny g) (Nx g) 0) (\<lambda>data_lambda.
     let west_val = dict_get tracer_config ''west'' (- 999);
         east_val = dict_get tracer_config ''east'' (- 999);
         north_val = dict_get tracer_config ''north'' (- 999);
         south_val = dict_get tracer_config ''south'' (- 999);
         lambda_val = b64 (dict_get tracer_config ''lambda'' (1 / 10000))
     in for_each (\<lambda>t. for_each (\<lambda>k st.
          bindE (if west_val > - 990 then west_boundary g buffer_width west_val lambda_val t k st
                 else Inr st) (\<lambda>st.
          bindE (if east_val > - 990 then east_boundary g buffer_width east_val lambda_val t k st
                 else Inr st) (\<lambda>st.
          bindE (if south_val > - 990 then south_boundary g buffer_width south_val lambda_val t k st
                 else Inr st) (\<lambda>st.
                (if north_val > - 990 then north_boundary g buffer_width north_val lambda_val t k st
                 else Inr st)))))
          (py_range 0 (Nz g))) (py_range 0 (num_steps g)) (data, data_lambda)))"


text \<open>The edges in the order the loop body visits them, with the dictionary key, the index
  range (the buffer zone) and the taper of each, as the four loops above have them. These
  name what the statements below talk about.\<close>

datatype edge = West | East | South | North

primrec edge_key :: "edge \<Rightarrow> string" where
  "edge_key West = ''west''"
| "edge_key East = ''east''"
| "edge_key South = ''south''"
| "edge_key North = ''north''"

definition edge_value :: "tracer_config \<Rightarrow> edge \<Rightarrow> real" where
  "edge_value cfg e = dict_get cfg (edge_key e) (- 999)"

definition edge_is_set :: "tracer_config \<Rightarrow> edge \<Rightarrow> bool" where
  "edge_is_set cfg e \<longleftrightarrow> edge_value cfg e > - 990"

definition lambda_scale :: "tracer_config \<Rightarrow> real" where
  "lambda_scale cfg = b64 (dict_get cfg ''lambda'' (1 / 10000))"

primrec in_buffer :: "generator \<Rightarrow> int \<Rightarrow> edge \<Rightarrow> nat \<Rightarrow> nat \<Rightarrow> bool" where
  "in_buffer g bw West j i \<longleftrightarrow> int i < min bw (Nx g)"
| "in_buffer g bw East j i \<longleftrightarrow> max 0 (Nx g - bw) \<le> int i \<and> int i < Nx g"
| "in_buffer g bw South j i \<longleftrightarrow> int j < min bw (Ny g)"
| "in_buffer g bw North j i \<longleftrightarrow> max 0 (Ny g - bw) \<le> int j \<and> int j < Ny g"

primrec taper_weight :: "generator \<Rightarrow> int \<Rightarrow> edge \<Rightarrow> nat \<Rightarrow> nat \<Rightarrow> real" where
  "taper_weight g bw West j i = b64 (1 - b64 (real_of_int (int i) / real_of_int bw))"
| "taper_weight g bw East j i = b64 (1 - b64 (real_of_int (Nx g - 1 - int i) / real_of_int bw))"
| "taper_weight g bw South j i = b64 (1 - b64 (real_of_int (int j) / real_of_int bw))"
| "taper_weight g bw North j i = b64 (1 - b64 (real_of_int (Ny g - 1 - int j) / real_of_int bw))"

definition edge_rate :: "generator \<Rightarrow> tracer_config \<Rightarrow> int \<Rightarrow> edge \<Rightarrow> nat \<Rightarrow> nat \<Rightarrow> real" where
  "edge_rate g cfg bw e j i = b64 (lambda_scale cfg * taper_weight g bw e j i)"

definition covering :: "generator \<Rightarrow> tracer_config \<Rightarrow> int \<Rightarrow> nat \<Rightarrow> nat \<Rightarrow> edge list" where
  "covering g cfg bw j i =
     filter (\<lambda>e. edge_is_set cfg e \<and> in_buffer g bw e j i) [West, East, South, North]"

subsection \<open>River arrays: the array construction of \<^verbatim>\<open>create_river_file\<close>\<close>

type_synonym site = "int \<times> int \<times> int"

text \<open>A dictionary of per-river lists, in insertion order.\<close>

type_synonym river_properties = "(string \<times> real list) list"

text \<open>\<^verbatim>\<open>enumerate(xs)\<close>.\<close>

definition py_enumerate :: "'a list \<Rightarrow> (int \<times> 'a) list" where
  "py_enumerate xs = zip (map int [0..<length xs]) xs"

text \<open>Lines 235 to 246: both arrays of one tracer.\<close>

definition river_arrays ::
  "generator \<Rightarrow> site list \<Rightarrow> real list \<Rightarrow> river_properties \<Rightarrow> string \<Rightarrow> error + ndarray \<times> ndarray" where
  "river_arrays g river_locations discharge_list river_properties tracer_name =
     bindE (np_full (num_steps g) (Nz g) (Ny g) (Nx g) 0) (\<lambda>flux_data.
     bindE (np_full (num_steps g) (Nz g) (Ny g) (Nx g) (- 999)) (\<lambda>value_data.
     bindE (dict_item (map_of river_properties) tracer_name) (\<lambda>tracer_values.
     for_each (\<lambda>(river_idx, (i, j, k)) (flux_data, value_data).
        bindE (py_getitem discharge_list river_idx) (\<lambda>discharge.
        bindE (py_getitem tracer_values river_idx) (\<lambda>tracer_val.
        bindE (assign_site flux_data k j i discharge) (\<lambda>flux_data'.
        bindE (assign_site value_data k j i tracer_val) (\<lambda>value_data'.
        Inr (flux_data', value_data'))))))
      (py_enumerate river_locations) (flux_data, value_data))))"

text \<open>The cell a site writes: each component wrapped as numpy wraps a negative index.\<close>

definition wrap_index :: "int \<Rightarrow> int \<Rightarrow> nat" where
  "wrap_index extent c = nat (if c < 0 then extent + c else c)"

definition index_ok :: "int \<Rightarrow> int \<Rightarrow> bool" where
  "index_ok extent c \<longleftrightarrow> - extent \<le> c \<and> c < extent"

definition site_ok :: "generator \<Rightarrow> site \<Rightarrow> bool" where
  "site_ok g s = (case s of (i, j, k) \<Rightarrow> index_ok (Nx g) i \<and> index_ok (Ny g) j \<and> index_ok (Nz g) k)"

definition site_cell :: "generator \<Rightarrow> site \<Rightarrow> nat \<times> nat \<times> nat" where
  "site_cell g s = (case s of (i, j, k) \<Rightarrow>
     (wrap_index (Nz g) k, wrap_index (Ny g) j, wrap_index (Nx g) i))"

subsection \<open>The two file procedures\<close>

text \<open>The dataset records what was done to it, in order.\<close>

datatype payload = Series "real list" | Grid ndarray

datatype nc_op =
    CreateDataset string
  | CreateDimension string "int option"
  | CreateVariable string
  | WriteVariable string payload
  | CloseDataset

text \<open>Lines 64 to 78 and 190 to 204: the file, its dimensions and the time variable.\<close>

definition open_dataset :: "generator \<Rightarrow> string \<Rightarrow> nc_op list" where
  "open_dataset g filepath =
     [CreateDataset filepath,
      CreateDimension ''Nx'' (Some (Nx g)), CreateDimension ''Ny'' (Some (Ny g)),
      CreateDimension ''Nz'' (Some (Nz g)), CreateDimension ''time'' None,
      CreateVariable ''time'', WriteVariable ''time'' (Series (times g))]"

text \<open>A boolean-mask selection flattens the array; \<^verbatim>\<open>np.min\<close> and \<^verbatim>\<open>np.max\<close> of an empty
  array raise ValueError.\<close>

definition flat :: "ndarray \<Rightarrow> real list" where
  "flat a = concat (concat (concat (cells a)))"

definition np_min :: "real list \<Rightarrow> error + real" where
  "np_min xs = (if xs = [] then Inl ValueError else Inr (Min (set xs)))"

definition np_max :: "real list \<Rightarrow> error + real" where
  "np_max xs = (if xs = [] then Inl ValueError else Inr (Max (set xs)))"

text \<open>Lines 157 to 160: what the statistics can raise (their printing is left out).\<close>

definition boundary_statistics :: "ndarray \<Rightarrow> ndarray \<Rightarrow> error + unit" where
  "boundary_statistics data data_lambda =
     bindE (norm_index (n_t data_lambda) 0) (\<lambda>_.
     bindE (np_min (filter (\<lambda>x. x > - 990) (flat data))) (\<lambda>_.
     bindE (np_max (filter (\<lambda>x. x > - 990) (flat data))) (\<lambda>_.
     bindE (np_min (filter (\<lambda>x. x > 0) (flat data_lambda))) (\<lambda>_.
     bindE (np_max (flat data_lambda)) (\<lambda>_. Inr ())))))"

text \<open>The loop over \<^verbatim>\<open>tracers_dict.items()\<close>, lines 81 to 160. A failure carries the
  dataset as it stands.\<close>

fun boundary_tracers ::
  "generator \<Rightarrow> int \<Rightarrow> (string \<times> tracer_config) list \<Rightarrow> nc_op list \<Rightarrow> (error \<times> nc_op list) + nc_op list" where
  "boundary_tracers g buffer_width [] ds = Inr ds"
| "boundary_tracers g buffer_width ((tracer_name, tracer_config) # rest) ds =
     (let ds1 = ds @ [CreateVariable tracer_name, CreateVariable (tracer_name @ ''_lambda'')]
      in case boundary_arrays g tracer_config buffer_width of
           Inl e \<Rightarrow> Inl (e, ds1)
         | Inr (data, data_lambda) \<Rightarrow>
             (let ds2 = ds1 @ [WriteVariable tracer_name (Grid data),
                               WriteVariable (tracer_name @ ''_lambda'') (Grid data_lambda)]
              in case boundary_statistics data data_lambda of
                   Inl e \<Rightarrow> Inl (e, ds2)
                 | Inr _ \<Rightarrow> boundary_tracers g buffer_width rest ds2))"

definition create_boundary_file ::
  "generator \<Rightarrow> string \<Rightarrow> (string \<times> tracer_config) list \<Rightarrow> int \<Rightarrow> (error \<times> nc_op list) + nc_op list" where
  "create_boundary_file g filepath tracers_dict buffer_width =
     (case boundary_tracers g buffer_width tracers_dict (open_dataset g filepath) of
        Inl failure \<Rightarrow> Inl failure
      | Inr ds \<Rightarrow> Inr (ds @ [CloseDataset]))"

text \<open>Lines 213 to 215: the assertion on every tracer's list, in key order.\<close>

fun validate_tracers :: "river_properties \<Rightarrow> nat \<Rightarrow> string list \<Rightarrow> error + unit" where
  "validate_tracers river_properties n_rivers [] = Inr ()"
| "validate_tracers river_properties n_rivers (tracer # rest) =
     bindE (dict_item (map_of river_properties) tracer) (\<lambda>vals.
       if length vals = n_rivers then validate_tracers river_properties n_rivers rest
       else Inl (AssertionError (''Number of '' @ tracer @ '' values must match number of rivers'')))"

text \<open>Line 256: \<^verbatim>\<open>flux_data[0, :, :, :]\<close> needs a first time step.\<close>

definition river_statistics :: "ndarray \<Rightarrow> error + unit" where
  "river_statistics flux_data = bindE (norm_index (n_t flux_data) 0) (\<lambda>_. Inr ())"

text \<open>The loop over the tracers, lines 218 to 257.\<close>

fun river_tracers ::
  "generator \<Rightarrow> site list \<Rightarrow> real list \<Rightarrow> river_properties \<Rightarrow> string list \<Rightarrow> nc_op list \<Rightarrow> (error \<times> nc_op list) + nc_op list" where
  "river_tracers g river_locations discharge_list river_properties [] ds = Inr ds"
| "river_tracers g river_locations discharge_list river_properties (tracer_name # rest) ds =
     (let ds1 = ds @ [CreateVariable (tracer_name @ ''_flux''), CreateVariable tracer_name]
      in case river_arrays g river_locations discharge_list river_properties tracer_name of
           Inl e \<Rightarrow> Inl (e, ds1)
         | Inr (flux_data, value_data) \<Rightarrow>
             (let ds2 = ds1 @ [WriteVariable (tracer_name @ ''_flux'') (Grid flux_data),
                               WriteVariable tracer_name (Grid value_data)]
              in case river_statistics flux_data of
                   Inl e \<Rightarrow> Inl (e, ds2)
                 | Inr _ \<Rightarrow> river_tracers g river_locations discharge_list river_properties rest ds2))"

definition create_river_file ::
  "generator \<Rightarrow> string \<Rightarrow> site list \<Rightarrow> river_properties \<Rightarrow> (error \<times> nc_op list) + nc_op list" where
  "create_river_file g filepath river_locations river_properties =
     (let ds = open_dataset g filepath;
          tracers = filter (\<lambda>key. key \<noteq> ''discharge'') (map fst river_properties)
      in case dict_item (map_of river_properties) ''discharge'' of
           Inl e \<Rightarrow> Inl (e, ds)
         | Inr discharge_list \<Rightarrow>
             (let n_rivers = length river_locations
              in if length discharge_list \<noteq> n_rivers
                 then Inl (AssertionError ''Number of discharge values must match number of rivers'', ds)
                 else case validate_tracers river_properties n_rivers tracers of
                        Inl e \<Rightarrow> Inl (e, ds)
                      | Inr _ \<Rightarrow>
                          (case river_tracers g river_locations discharge_list river_properties tracers ds of
                             Inl failure \<Rightarrow> Inl failure
                           | Inr ds' \<Rightarrow> Inr (ds' @ [CloseDataset]))))"

section \<open>Auxiliary notions for the proofs\<close>

text \<open>\<open>arr_is a T Z Y X f\<close>: the array has shape \<open>(T, Z, Y, X)\<close>, its nested lists have those
  lengths, and its cell \<open>[t, k, j, i]\<close> holds \<open>f t k j i\<close>.\<close>

definition arr_is :: "ndarray \<Rightarrow> nat \<Rightarrow> nat \<Rightarrow> nat \<Rightarrow> nat \<Rightarrow> (nat \<Rightarrow> nat \<Rightarrow> nat \<Rightarrow> nat \<Rightarrow> real) \<Rightarrow> bool" where
  "arr_is a T Z Y X f \<longleftrightarrow>
     n_t a = T \<and> n_z a = Z \<and> n_y a = Y \<and> n_x a = X \<and> length (cells a) = T \<and>
     (\<forall>t<T. length (cells a ! t) = Z \<and>
       (\<forall>k<Z. length (cells a ! t ! k) = Y \<and>
         (\<forall>j<Y. length (cells a ! t ! k ! j) = X \<and>
           (\<forall>i<X. cells a ! t ! k ! j ! i = f t k j i))))"

text \<open>The two loop shapes of the edge loops, over any index list and any numerator of the
  taper; the four loops are instances.\<close>

definition taper_cols ::
  "(int \<Rightarrow> int) \<Rightarrow> int \<Rightarrow> real \<Rightarrow> real \<Rightarrow> int \<Rightarrow> int \<Rightarrow> int list \<Rightarrow> ndarray \<times> ndarray \<Rightarrow> error + ndarray \<times> ndarray" where
  "taper_cols num bw v lam t k =
     for_each (\<lambda>i (d, dl).
        bindE (py_truediv (num i) bw) (\<lambda>q.
        let weight = b64 (1 - q) in
        bindE (assign_col d t k i v) (\<lambda>d'.
        bindE (maximum_col dl t k i (b64 (lam * weight))) (\<lambda>dl'.
        Inr (d', dl')))))"

definition taper_rows ::
  "(int \<Rightarrow> int) \<Rightarrow> int \<Rightarrow> real \<Rightarrow> real \<Rightarrow> int \<Rightarrow> int \<Rightarrow> int list \<Rightarrow> ndarray \<times> ndarray \<Rightarrow> error + ndarray \<times> ndarray" where
  "taper_rows num bw v lam t k =
     for_each (\<lambda>j (d, dl).
        bindE (py_truediv (num j) bw) (\<lambda>q.
        let weight = b64 (1 - q) in
        bindE (assign_row d t k j v) (\<lambda>d'.
        bindE (maximum_row dl t k j (b64 (lam * weight))) (\<lambda>dl'.
        Inr (d', dl')))))"

text \<open>What one edge, and then all four in order, do to the old content of a cell.\<close>

definition step_value :: "generator \<Rightarrow> tracer_config \<Rightarrow> int \<Rightarrow> edge \<Rightarrow> nat \<Rightarrow> nat \<Rightarrow> real \<Rightarrow> real" where
  "step_value g cfg bw e j i old =
     (if edge_is_set cfg e \<and> in_buffer g bw e j i then edge_value cfg e else old)"

definition step_rate :: "generator \<Rightarrow> tracer_config \<Rightarrow> int \<Rightarrow> edge \<Rightarrow> nat \<Rightarrow> nat \<Rightarrow> real \<Rightarrow> real" where
  "step_rate g cfg bw e j i old =
     (if edge_is_set cfg e \<and> in_buffer g bw e j i then max old (edge_rate g cfg bw e j i) else old)"

definition plane_value :: "generator \<Rightarrow> tracer_config \<Rightarrow> int \<Rightarrow> nat \<Rightarrow> nat \<Rightarrow> real \<Rightarrow> real" where
  "plane_value g cfg bw j i old =
     step_value g cfg bw North j i (step_value g cfg bw South j i
       (step_value g cfg bw East j i (step_value g cfg bw West j i old)))"

definition plane_rate :: "generator \<Rightarrow> tracer_config \<Rightarrow> int \<Rightarrow> nat \<Rightarrow> nat \<Rightarrow> real \<Rightarrow> real" where
  "plane_rate g cfg bw j i old =
     step_rate g cfg bw North j i (step_rate g cfg bw South j i
       (step_rate g cfg bw East j i (step_rate g cfg bw West j i old)))"

text \<open>The body of the \<open>(t, k)\<close> iteration.\<close>

definition all_edges ::
  "generator \<Rightarrow> tracer_config \<Rightarrow> int \<Rightarrow> int \<Rightarrow> int \<Rightarrow> ndarray \<times> ndarray \<Rightarrow> error + ndarray \<times> ndarray" where
  "all_edges g cfg bw t k st =
     bindE (if edge_value cfg West > - 990
            then west_boundary g bw (edge_value cfg West) (lambda_scale cfg) t k st else Inr st) (\<lambda>st.
     bindE (if edge_value cfg East > - 990
            then east_boundary g bw (edge_value cfg East) (lambda_scale cfg) t k st else Inr st) (\<lambda>st.
     bindE (if edge_value cfg South > - 990
            then south_boundary g bw (edge_value cfg South) (lambda_scale cfg) t k st else Inr st) (\<lambda>st.
           (if edge_value cfg North > - 990
            then north_boundary g bw (edge_value cfg North) (lambda_scale cfg) t k st else Inr st))))"

text \<open>The body of the loop over the sites, and what the sites of a list, in order, leave
  in a cell.\<close>

definition add_river ::
  "real list \<Rightarrow> real list \<Rightarrow> int \<times> site \<Rightarrow> ndarray \<times> ndarray \<Rightarrow> error + ndarray \<times> ndarray" where
  "add_river discharge_list tracer_values =
     (\<lambda>(river_idx, (i, j, k)) (flux_data, value_data).
        bindE (py_getitem discharge_list river_idx) (\<lambda>discharge.
        bindE (py_getitem tracer_values river_idx) (\<lambda>tracer_val.
        bindE (assign_site flux_data k j i discharge) (\<lambda>flux_data'.
        bindE (assign_site value_data k j i tracer_val) (\<lambda>value_data'.
        Inr (flux_data', value_data'))))))"

definition site_writes ::
  "generator \<Rightarrow> real list \<Rightarrow> (int \<times> site) list \<Rightarrow> nat \<times> nat \<times> nat \<Rightarrow> real \<Rightarrow> real" where
  "site_writes g vals es c old =
     fold (\<lambda>(r, s) acc. if site_cell g s = c then vals ! nat r else acc) es old"

section \<open>Binary64 rounding\<close>

lemma pow2_pos: "0 < pow2 k"
  by (simp add: pow2_def)

lemma pow2_add: "pow2 (j + k) = pow2 j * pow2 k"
proof -
  have "pow2 k = 2 powr real_of_int k" for k
    by (auto simp: pow2_def powr_realpow[symmetric] powr_minus divide_simps)
  then show ?thesis by (simp add: powr_add)
qed

lemma pow2_mono: "j \<le> k \<Longrightarrow> pow2 j \<le> pow2 k"
proof -
  assume "j \<le> k"
  then obtain n where k: "k = j + int n" by (metis zle_iff_zadd)
  have "1 \<le> pow2 (int n)" by (simp add: pow2_def)
  then have "pow2 j * 1 \<le> pow2 j * pow2 (int n)"
    using pow2_pos[of j] by (intro mult_left_mono) auto
  then show ?thesis by (simp add: k pow2_add)
qed

lemma pow2_strict_mono: "j < k \<Longrightarrow> pow2 j < pow2 k"
proof -
  assume "j < k"
  then have "j + 1 \<le> k" by simp
  then have "pow2 (j + 1) \<le> pow2 k" by (rule pow2_mono)
  moreover have "pow2 j < pow2 (j + 1)"
    using pow2_pos[of j] by (simp add: pow2_add) (simp add: pow2_def)
  ultimately show ?thesis by simp
qed

lemma pow2_nat: "pow2 (int n) = 2 ^ n"
  by (simp add: pow2_def)

lemma binade_bounds:
  assumes "0 < x"
  shows "pow2 (binade x) \<le> x \<and> x < pow2 (binade x + 1)"
proof (cases "1 \<le> x")
  case True
  let ?n = "\<lfloor>x\<rfloor>"
  have n: "0 < ?n" using True by simp
  from bitlen_bounds[OF n] have lo: "2 ^ nat (bitlen ?n - 1) \<le> ?n" and hi: "?n < 2 ^ nat (bitlen ?n)"
    by simp_all
  have b1: "1 \<le> bitlen ?n" using n by (simp add: bitlen_alt_def)
  have "pow2 (bitlen ?n - 1) = 2 ^ nat (bitlen ?n - 1)" using b1 by (simp add: pow2_def)
  also have "\<dots> = real_of_int (2 ^ nat (bitlen ?n - 1))" by simp
  also have "\<dots> \<le> real_of_int ?n" using lo by (simp only: of_int_le_iff)
  also have "\<dots> \<le> x" by simp
  finally have 1: "pow2 (bitlen ?n - 1) \<le> x" .
  have "?n + 1 \<le> 2 ^ nat (bitlen ?n)" using hi by simp
  then have "real_of_int (?n + 1) \<le> real_of_int (2 ^ nat (bitlen ?n))" by (simp only: of_int_le_iff)
  then have "real_of_int ?n + 1 \<le> 2 ^ nat (bitlen ?n)" by simp
  moreover have "x < real_of_int ?n + 1" by linarith
  ultimately have "x < 2 ^ nat (bitlen ?n)" by linarith
  also have "\<dots> = pow2 (bitlen ?n - 1 + 1)" using b1 by (simp add: pow2_def)
  finally have 2: "x < pow2 (bitlen ?n - 1 + 1)" .
  from 1 2 True show ?thesis by (simp add: binade_def)
next
  case False
  let ?c = "\<lceil>1 / x\<rceil>"
  have y: "1 < 1 / x" using False assms by simp
  then have c: "0 < ?c - 1" by linarith
  let ?k = "bitlen (?c - 1)"
  from bitlen_bounds[OF c] have lo: "2 ^ nat (?k - 1) \<le> ?c - 1" and hi: "?c - 1 < 2 ^ nat ?k"
    by simp_all
  have k1: "1 \<le> ?k" using c by (simp add: bitlen_alt_def)
  have "?c \<le> 2 ^ nat ?k" using hi by simp
  then have "1 / x \<le> real_of_int (2 ^ nat ?k)" by (subst (asm) ceiling_le_iff)
  then have "1 / x \<le> 2 ^ nat ?k" by simp
  then have "1 \<le> 2 ^ nat ?k * x" using assms by (simp add: field_simps)
  then have "1 / 2 ^ nat ?k \<le> x" by (simp add: field_simps)
  moreover have "pow2 (- ?k) = 1 / 2 ^ nat ?k" using k1 by (simp add: pow2_def)
  ultimately have 1: "pow2 (- ?k) \<le> x" by simp
  have "2 ^ nat (?k - 1) < ?c" using lo by simp
  then have "real_of_int (2 ^ nat (?k - 1)) < 1 / x" by (subst (asm) less_ceiling_iff)
  then have "2 ^ nat (?k - 1) < 1 / x" by simp
  then have "x * 2 ^ nat (?k - 1) < 1" using assms by (simp add: field_simps)
  then have "x < 1 / 2 ^ nat (?k - 1)" by (simp add: field_simps)
  moreover have "pow2 (- ?k + 1) = 1 / 2 ^ nat (?k - 1)"
    using k1 by (cases "?k = 1") (auto simp: pow2_def)
  ultimately have 2: "x < pow2 (- ?k + 1)" by simp
  from 1 2 False show ?thesis by (simp add: binade_def)
qed

lemma binade_unique:
  assumes "pow2 k \<le> x" "x < pow2 (k + 1)"
  shows "binade x = k"
proof -
  have x: "0 < x" using assms(1) pow2_pos[of k] by simp
  from binade_bounds[OF x] have b: "pow2 (binade x) \<le> x" "x < pow2 (binade x + 1)" by simp_all
  have "\<not> binade x < k"
  proof
    assume "binade x < k"
    then have "pow2 (binade x + 1) \<le> pow2 k" by (intro pow2_mono) simp
    with b(2) assms(1) show False by simp
  qed
  moreover have "\<not> k < binade x"
  proof
    assume "k < binade x"
    then have "pow2 (k + 1) \<le> pow2 (binade x)" by (intro pow2_mono) simp
    with b(1) assms(2) show False by simp
  qed
  ultimately show ?thesis by simp
qed

lemma binade_mono:
  assumes "0 < x" "x \<le> y"
  shows "binade x \<le> binade y"
proof (rule ccontr)
  assume "\<not> binade x \<le> binade y"
  then have "binade y + 1 \<le> binade x" by simp
  then have "pow2 (binade y + 1) \<le> pow2 (binade x)" by (rule pow2_mono)
  moreover have "pow2 (binade x) \<le> x" using binade_bounds[OF assms(1)] by simp
  moreover have "y < pow2 (binade y + 1)" using binade_bounds[of y] assms by simp
  ultimately show False using assms(2) by simp
qed

lemma round_even_of_int: "round_even (of_int k) = k"
  by (simp add: round_even_def)

lemma round_even_mono:
  assumes "r \<le> s"
  shows "round_even r \<le> round_even s"
proof -
  have fl: "\<lfloor>r\<rfloor> \<le> \<lfloor>s\<rfloor>" using assms by (rule floor_mono)
  have up: "round_even r \<le> \<lfloor>r\<rfloor> + 1" and lo: "\<lfloor>s\<rfloor> \<le> round_even s"
    by (simp_all add: round_even_def Let_def)
  show ?thesis
  proof (cases "\<lfloor>r\<rfloor> < \<lfloor>s\<rfloor>")
    case True
    with up lo show ?thesis by simp
  next
    case False
    with fl have eq: "\<lfloor>r\<rfloor> = \<lfloor>s\<rfloor>" by simp
    then show ?thesis
      using assms by (auto simp: round_even_def Let_def)
  qed
qed

lemma round_even_ge: "of_int k \<le> r \<Longrightarrow> k \<le> round_even r"
  using round_even_mono[of "of_int k" r] by (simp add: round_even_of_int)

lemma round_even_le: "r \<le> of_int k \<Longrightarrow> round_even r \<le> k"
  using round_even_mono[of r "of_int k"] by (simp add: round_even_of_int)

lemma binade_pow2: "binade (pow2 k) = k"
  by (rule binade_unique) (simp_all add: pow2_strict_mono)

lemma ulp_exp_ge: "- 1074 \<le> ulp_exp a"
proof (cases "a < pow2 (- 1022)")
  case True
  then show ?thesis by (simp add: ulp_exp_def)
next
  case False
  then have "pow2 (- 1022) \<le> a" by simp
  from binade_mono[OF pow2_pos this] have "- 1022 \<le> binade a" by (simp add: binade_pow2)
  with False show ?thesis by (simp add: ulp_exp_def)
qed

lemma ulp_exp_mono:
  assumes "0 < a" "a \<le> b"
  shows "ulp_exp a \<le> ulp_exp b"
proof (cases "a < pow2 (- 1022)")
  case True
  then show ?thesis using ulp_exp_ge[of b] by (simp add: ulp_exp_def)
next
  case False
  with assms have "\<not> b < pow2 (- 1022)" by simp
  with False show ?thesis using binade_mono[OF assms] by (simp add: ulp_exp_def)
qed

lemma below_top:
  assumes "0 < a"
  shows "a < pow2 (ulp_exp a + 53)"
proof (cases "a < pow2 (- 1022)")
  case True
  moreover have "pow2 (- 1022) < pow2 (- 1021)" by (rule pow2_strict_mono) simp
  ultimately show ?thesis by (simp add: ulp_exp_def)
next
  case False
  then show ?thesis using binade_bounds[OF assms] by (simp add: ulp_exp_def add.commute)
qed

lemma above_bottom:
  assumes "0 < a" "- 1074 < ulp_exp a"
  shows "pow2 (ulp_exp a + 52) \<le> a"
proof -
  from assms(2) have "\<not> a < pow2 (- 1022)" by (auto simp: ulp_exp_def)
  then show ?thesis using binade_bounds[OF assms(1)] by (simp add: ulp_exp_def)
qed

lemma pow2_diff: "pow2 (j - k) = pow2 j / pow2 k"
  using pow2_add[of "j - k" k] pow2_pos[of k] by (simp add: field_simps)

lemma pow2_of_int: "0 \<le> k \<Longrightarrow> pow2 k = of_int (2 ^ nat k)"
  by (simp add: pow2_def)

lemma b64_mag_le_top:
  assumes "0 < a"
  shows "b64_mag a \<le> pow2 (ulp_exp a + 53)"
proof -
  let ?e = "ulp_exp a"
  have "a / pow2 ?e < pow2 53"
    using below_top[OF assms] pow2_pos[of ?e] by (simp add: pow2_add field_simps)
  then have "a / pow2 ?e \<le> of_int (2 ^ 53)" by (simp add: pow2_def)
  then have "round_even (a / pow2 ?e) \<le> 2 ^ 53" by (rule round_even_le)
  then have "real_of_int (round_even (a / pow2 ?e)) \<le> real_of_int (2 ^ 53)"
    by (simp only: of_int_le_iff)
  then have "real_of_int (round_even (a / pow2 ?e)) * pow2 ?e \<le> real_of_int (2 ^ 53) * pow2 ?e"
    using pow2_pos[of ?e] by (intro mult_right_mono) auto
  then show ?thesis by (simp add: b64_mag_def pow2_add pow2_def[of 53] mult.commute)
qed

lemma b64_mag_ge_bottom:
  assumes "0 < a" "- 1074 < ulp_exp a"
  shows "pow2 (ulp_exp a + 52) \<le> b64_mag a"
proof -
  let ?e = "ulp_exp a"
  have "pow2 52 \<le> a / pow2 ?e"
    using above_bottom[OF assms] pow2_pos[of ?e] by (simp add: pow2_add field_simps)
  then have "of_int (2 ^ 52) \<le> a / pow2 ?e" by (simp add: pow2_def)
  then have "2 ^ 52 \<le> round_even (a / pow2 ?e)" by (rule round_even_ge)
  then have "real_of_int (2 ^ 52) \<le> real_of_int (round_even (a / pow2 ?e))"
    by (simp only: of_int_le_iff)
  then have "real_of_int (2 ^ 52) * pow2 ?e \<le> real_of_int (round_even (a / pow2 ?e)) * pow2 ?e"
    using pow2_pos[of ?e] by (intro mult_right_mono) auto
  then show ?thesis by (simp add: b64_mag_def pow2_add pow2_def[of 52] mult.commute)
qed

lemma b64_mag_nonneg:
  assumes "0 < a"
  shows "0 \<le> b64_mag a"
proof -
  have "0 \<le> a / pow2 (ulp_exp a)" using assms pow2_pos[of "ulp_exp a"] by simp
  then have "of_int 0 \<le> a / pow2 (ulp_exp a)" by simp
  then have "0 \<le> round_even (a / pow2 (ulp_exp a))" by (rule round_even_ge)
  then show ?thesis using pow2_pos[of "ulp_exp a"] by (simp add: b64_mag_def)
qed

lemma b64_mag_mono:
  assumes "0 < a" "a \<le> b"
  shows "b64_mag a \<le> b64_mag b"
proof (cases "ulp_exp a = ulp_exp b")
  case True
  have "a / pow2 (ulp_exp b) \<le> b / pow2 (ulp_exp b)"
    using assms(2) pow2_pos[of "ulp_exp b"] by (simp add: divide_right_mono)
  then have "round_even (a / pow2 (ulp_exp b)) \<le> round_even (b / pow2 (ulp_exp b))"
    by (rule round_even_mono)
  then have "real_of_int (round_even (a / pow2 (ulp_exp b))) * pow2 (ulp_exp b)
      \<le> real_of_int (round_even (b / pow2 (ulp_exp b))) * pow2 (ulp_exp b)"
    using pow2_pos[of "ulp_exp b"] by (intro mult_right_mono) auto
  then show ?thesis by (simp add: b64_mag_def True)
next
  case False
  with ulp_exp_mono[OF assms] have lt: "ulp_exp a < ulp_exp b" by simp
  have b: "0 < b" using assms by simp
  have "- 1074 < ulp_exp b" using lt ulp_exp_ge[of a] by simp
  from b64_mag_ge_bottom[OF b this] have "pow2 (ulp_exp b + 52) \<le> b64_mag b" .
  moreover have "pow2 (ulp_exp a + 53) \<le> pow2 (ulp_exp b + 52)"
    using lt by (intro pow2_mono) simp
  moreover have "b64_mag a \<le> pow2 (ulp_exp a + 53)" by (rule b64_mag_le_top[OF assms(1)])
  ultimately show ?thesis by simp
qed

lemma b64_mono:
  assumes "x \<le> y"
  shows "b64 x \<le> b64 y"
proof -
  consider "y < 0" | "x < 0" "0 \<le> y" | "0 = x" | "0 < x" by fastforce
  then show ?thesis
  proof cases
    case 1
    then have "0 < - y" "- y \<le> - x" using assms by simp_all
    from b64_mag_mono[OF this] 1 assms show ?thesis by (simp add: b64_def)
  next
    case 2
    have "0 \<le> b64_mag (- x)" using 2 by (intro b64_mag_nonneg) simp
    moreover have "0 \<le> b64 y"
      using 2 b64_mag_nonneg[of y] by (cases "y = 0") (simp_all add: b64_def)
    ultimately show ?thesis using 2 by (simp add: b64_def)
  next
    case 3
    then show ?thesis using assms b64_mag_nonneg[of y] by (cases "y = 0") (auto simp: b64_def)
  next
    case 4
    from b64_mag_mono[OF 4 assms] 4 assms show ?thesis by (simp add: b64_def)
  qed
qed

lemma b64_zero: "b64 0 = 0"
  by (simp add: b64_def)

lemma b64_minus: "b64 (- x) = - b64 x"
  by (simp add: b64_def)

lemma b64_nonneg: "0 \<le> x \<Longrightarrow> 0 \<le> b64 x"
  using b64_mono[of 0 x] by (simp add: b64_zero)

lemma b64_representable:
  assumes m: "0 < m" "m < 2 ^ 53" and e: "- 1074 \<le> e"
  shows "b64 (of_int m * pow2 e) = of_int m * pow2 e"
proof -
  let ?a = "real_of_int m * pow2 e"
  have a: "0 < ?a" using m(1) pow2_pos[of e] by simp
  have "real_of_int m < real_of_int (2 ^ 53)" using m(2) by (simp only: of_int_less_iff)
  then have "?a < pow2 53 * pow2 e"
    using pow2_pos[of e] by (simp add: pow2_def[of 53])
  then have top: "?a < pow2 (e + 53)" by (simp add: pow2_add mult.commute)
  have le: "ulp_exp ?a \<le> e"
  proof (cases "?a < pow2 (- 1022)")
    case True
    then show ?thesis using e by (simp add: ulp_exp_def)
  next
    case False
    have "\<not> e + 53 \<le> binade ?a"
    proof
      assume "e + 53 \<le> binade ?a"
      then have "pow2 (e + 53) \<le> pow2 (binade ?a)" by (rule pow2_mono)
      with binade_bounds[OF a] top show False by simp
    qed
    with False show ?thesis by (simp add: ulp_exp_def)
  qed
  define u where "u = ulp_exp ?a"
  define n where "n = nat (e - u)"
  have en: "e = u + int n" using le by (simp add: n_def u_def)
  have pe: "pow2 e = pow2 u * pow2 (int n)" by (simp add: en pow2_add)
  have "?a / pow2 u = real_of_int m * pow2 (int n)"
    using pow2_pos[of u] by (simp add: pe)
  also have "\<dots> = of_int (m * 2 ^ n)" by (simp add: pow2_nat)
  finally have q: "?a / pow2 u = of_int (m * 2 ^ n)" .
  have "b64_mag ?a = of_int (round_even (?a / pow2 u)) * pow2 u"
    by (simp add: b64_mag_def u_def)
  also have "\<dots> = of_int (m * 2 ^ n) * pow2 u"
    by (simp only: q round_even_of_int)
  also have "\<dots> = real_of_int m * pow2 e" by (simp add: pe pow2_nat)
  finally show ?thesis using a by (simp add: b64_def)
qed

lemma b64_pow2: "- 1074 \<le> k \<Longrightarrow> b64 (pow2 k) = pow2 k"
  using b64_representable[of 1 k] by simp

lemma b64_one: "b64 1 = 1"
  using b64_pow2[of 0] by (simp add: pow2_def)

lemma b64_normal:
  assumes "pow2 k \<le> a" "a < pow2 (k + 1)" "- 1022 \<le> k"
  shows "b64 a = of_int (round_even (a / pow2 (k - 52))) * pow2 (k - 52)"
proof -
  have a: "0 < a" using assms(1) pow2_pos[of k] by simp
  have "pow2 (- 1022) \<le> pow2 k" using assms(3) by (rule pow2_mono)
  then have "\<not> a < pow2 (- 1022)" using assms(1) by simp
  then have "ulp_exp a = k - 52" using binade_unique[OF assms(1,2)] by (simp add: ulp_exp_def)
  then show ?thesis using a by (simp add: b64_def b64_mag_def)
qed

lemma b64_subnormal:
  assumes "0 < a" "a < pow2 (- 1022)"
  shows "b64 a = of_int (round_even (a / pow2 (- 1074))) * pow2 (- 1074)"
  using assms by (simp add: b64_def b64_mag_def ulp_exp_def)

lemma b64_mag_idem:
  assumes "0 < a"
  shows "b64 (b64_mag a) = b64_mag a"
proof -
  let ?e = "ulp_exp a"
  let ?m = "round_even (a / pow2 ?e)"
  have p: "0 < pow2 ?e" by (rule pow2_pos)
  have "of_int 0 \<le> a / pow2 ?e" using assms p by simp
  then have m0: "0 \<le> ?m" by (rule round_even_ge)
  have "a < pow2 ?e * pow2 53" using below_top[OF assms] by (simp add: pow2_add)
  then have "a / pow2 ?e \<le> of_int (2 ^ 53)" using p by (simp add: pow2_def field_simps)
  then have mtop: "?m \<le> 2 ^ 53" by (rule round_even_le)
  consider "?m = 0" | "0 < ?m" "?m < 2 ^ 53" | "?m = 2 ^ 53" using m0 mtop by linarith
  then show ?thesis
  proof cases
    case 1
    then show ?thesis by (simp add: b64_mag_def b64_zero)
  next
    case 2
    from b64_representable[OF 2 ulp_exp_ge[of a]] show ?thesis by (simp add: b64_mag_def)
  next
    case 3
    have "b64_mag a = pow2 (?e + 53)" by (simp add: b64_mag_def 3 pow2_add) (simp add: pow2_def)
    moreover have "- 1074 \<le> ?e + 53" using ulp_exp_ge[of a] by simp
    ultimately show ?thesis by (simp add: b64_pow2)
  qed
qed

lemma b64_idem: "b64 (b64 x) = b64 x"
proof -
  consider "x < 0" | "x = 0" | "0 < x" by linarith
  then show ?thesis
  proof cases
    case 1
    then have "b64 x = - b64_mag (- x)" by (simp add: b64_def)
    then show ?thesis using b64_mag_idem[of "- x"] 1 by (simp add: b64_minus)
  next
    case 2
    then show ?thesis by (simp add: b64_zero)
  next
    case 3
    then have "b64 x = b64_mag x" by (simp add: b64_def)
    then show ?thesis using b64_mag_idem[OF 3] by simp
  qed
qed

lemma b64_int: "\<bar>n\<bar> < 2 ^ 53 \<Longrightarrow> b64 (of_int n) = of_int n"
proof -
  assume n: "\<bar>n\<bar> < 2 ^ 53"
  have pos: "b64 (of_int m) = of_int m" if "0 < m" "m < 2 ^ 53" for m
    using b64_representable[OF that, of 0] by (simp add: pow2_def)
  consider "n < 0" | "n = 0" | "0 < n" by linarith
  then show ?thesis
  proof cases
    case 1
    then have "b64 (of_int (- n)) = of_int (- n)" using n by (intro pos) auto
    then show ?thesis using b64_minus[of "of_int n"] by simp
  next
    case 2
    then show ?thesis by (simp add: b64_zero)
  next
    case 3
    then show ?thesis using n by (intro pos) auto
  qed
qed

lemma b64_numeral: "(numeral w :: int) < 2 ^ 53 \<Longrightarrow> b64 (numeral w) = numeral w"
  using b64_int[of "numeral w"] by simp

lemma b64_pos: "pow2 (- 1074) \<le> x \<Longrightarrow> pow2 (- 1074) \<le> b64 x"
  using b64_mono[of "pow2 (- 1074)" x] by (simp add: b64_pow2)

lemma b64_le_one: "x \<le> 1 \<Longrightarrow> b64 x \<le> 1"
  using b64_mono[of x 1] by (simp add: b64_one)

lemma binary64_nonzero:
  assumes "binary64 h" "h \<noteq> 0"
  shows "pow2 (- 1074) \<le> \<bar>h\<bar>"
proof (rule ccontr)
  assume "\<not> pow2 (- 1074) \<le> \<bar>h\<bar>"
  then have lt: "\<bar>h\<bar> < pow2 (- 1074)" by simp
  have a: "0 < \<bar>h\<bar>" using assms(2) by simp
  have "pow2 (- 1074) < pow2 (- 1022)" by (rule pow2_strict_mono) simp
  with lt have sub: "\<bar>h\<bar> < pow2 (- 1022)" by simp
  have fx: "b64 \<bar>h\<bar> = \<bar>h\<bar>"
    using assms(1) b64_minus[of h] by (cases "h < 0") (simp_all add: binary64_def abs_if)
  let ?r = "\<bar>h\<bar> / pow2 (- 1074)"
  have r: "0 < ?r" "?r < 1" using a lt pow2_pos[of "- 1074"] by simp_all
  have "round_even ?r \<le> 1" using r by (intro round_even_le) simp
  moreover have "0 \<le> round_even ?r" using r by (intro round_even_ge) simp
  ultimately consider "round_even ?r = 0" | "round_even ?r = 1" by linarith
  then show False
  proof cases
    case 1
    then have "b64 \<bar>h\<bar> = 0" using b64_subnormal[OF a sub] by simp
    with fx a show False by simp
  next
    case 2
    then have "b64 \<bar>h\<bar> = pow2 (- 1074)" using b64_subnormal[OF a sub] by simp
    with fx lt show False by simp
  qed
qed

lemma pow2_1024: "pow2 1024 = 2 ^ 1024"
  by (simp add: pow2_def)


section \<open>Basic facts\<close>

lemma bindE_Inr: "bindE (Inr x) f = f x"
  by (simp add: bindE_def)

lemma arr_is_cell:
  "arr_is a T Z Y X f \<Longrightarrow> t < T \<Longrightarrow> k < Z \<Longrightarrow> j < Y \<Longrightarrow> i < X \<Longrightarrow> cell a t k j i = f t k j i"
  by (simp add: arr_is_def cell_def)

lemma arr_is_cong:
  "arr_is a T Z Y X f \<Longrightarrow> (\<And>t k j i. t < T \<Longrightarrow> k < Z \<Longrightarrow> j < Y \<Longrightarrow> i < X \<Longrightarrow> f t k j i = f' t k j i)
   \<Longrightarrow> arr_is a T Z Y X f'"
  by (simp add: arr_is_def)

lemma np_full_arr:
  "0 \<le> T \<Longrightarrow> 0 \<le> Z \<Longrightarrow> 0 \<le> Y \<Longrightarrow> 0 \<le> X \<Longrightarrow>
   \<exists>a. np_full T Z Y X v = Inr a \<and> arr_is a (nat T) (nat Z) (nat Y) (nat X) (\<lambda>_ _ _ _. v)"
  by (simp add: np_full_def arr_is_def)

lemma norm_index_in_range: "0 \<le> i \<Longrightarrow> i < int n \<Longrightarrow> norm_index n i = Inr (nat i)"
  by (simp add: norm_index_def)

lemma update_col_arr:
  assumes "arr_is a T Z Y X f" "0 \<le> t" "t < int T" "0 \<le> k" "k < int Z" "0 \<le> i" "i < int X"
  shows "\<exists>a'. update_col a t k i h = Inr a' \<and>
           arr_is a' T Z Y X (\<lambda>t2 k2 j2 i2. if t2 = nat t \<and> k2 = nat k \<and> i2 = nat i
                                          then h (f t2 k2 j2 i2) else f t2 k2 j2 i2)"
  using assms
  by (auto simp: arr_is_def update_col_def norm_index_in_range bindE_def nth_list_update)

lemma update_row_arr:
  assumes "arr_is a T Z Y X f" "0 \<le> t" "t < int T" "0 \<le> k" "k < int Z" "0 \<le> j" "j < int Y"
  shows "\<exists>a'. update_row a t k j h = Inr a' \<and>
           arr_is a' T Z Y X (\<lambda>t2 k2 j2 i2. if t2 = nat t \<and> k2 = nat k \<and> j2 = nat j
                                          then h (f t2 k2 j2 i2) else f t2 k2 j2 i2)"
  using assms
  by (auto simp: arr_is_def update_row_def norm_index_in_range bindE_def nth_list_update)

lemma for_each_append:
  "for_each body (xs @ ys) s = bindE (for_each body xs s) (for_each body ys)"
  by (induction xs arbitrary: s) (auto simp: bindE_def split: sum.splits)

lemma for_each_rule:
  assumes init: "Q [] s"
    and step: "\<And>pre x post s1. xs = pre @ x # post \<Longrightarrow> Q pre s1 \<Longrightarrow>
                 \<exists>s2. body x s1 = Inr s2 \<and> Q (pre @ [x]) s2"
  shows "\<exists>s'. for_each body xs s = Inr s' \<and> Q xs s'"
proof -
  have "\<forall>post. xs = pre @ post \<longrightarrow> (\<exists>s'. for_each body pre s = Inr s' \<and> Q pre s')" for pre
  proof (induction pre rule: rev_induct)
    case Nil
    show ?case using init by simp
  next
    case (snoc x pre)
    show ?case
    proof (intro allI impI)
      fix post assume xs: "xs = (pre @ [x]) @ post"
      then have "xs = pre @ (x # post)" by simp
      with snoc.IH obtain s1 where s1: "for_each body pre s = Inr s1" "Q pre s1" by blast
      from step[of pre x post s1] xs s1 obtain s2 where "body x s1 = Inr s2" "Q (pre @ [x]) s2"
        by auto
      then show "\<exists>s'. for_each body (pre @ [x]) s = Inr s' \<and> Q (pre @ [x]) s'"
        using s1 by (simp add: for_each_append bindE_def)
    qed
  qed
  from this[of xs] show ?thesis by simp
qed

lemma py_truediv_frac:
  assumes "0 \<le> a" "a < b"
  shows "py_truediv a b = Inr (b64 (real_of_int a / real_of_int b))"
proof -
  let ?q = "real_of_int a / real_of_int b"
  from assms have "0 \<le> ?q" "?q \<le> 1" by simp_all
  then have "0 \<le> b64 ?q" "b64 ?q \<le> 1"
    using b64_mono[of 0 ?q] b64_mono[of ?q 1] by (simp_all add: b64_zero b64_one)
  moreover have "(1 :: real) < pow2 1024" by (simp add: pow2_def)
  ultimately show ?thesis using assms by (simp add: py_truediv_def Let_def)
qed

lemma taper_cols_arr:
  assumes d: "arr_is d T Z Y X f" and dl: "arr_is dl T Z Y X g"
    and t: "0 \<le> t" "t < int T" and k: "0 \<le> k" "k < int Z"
    and rng: "\<forall>i\<in>set ixs. 0 \<le> i \<and> i < int X" and bw: "\<forall>i\<in>set ixs. 0 \<le> num i \<and> num i < bw"
  shows "\<exists>d' dl'. taper_cols num bw v lam t k ixs (d, dl) = Inr (d', dl') \<and>
     arr_is d' T Z Y X (\<lambda>t2 k2 j2 i2. if t2 = nat t \<and> k2 = nat k \<and> int i2 \<in> set ixs
                                     then v else f t2 k2 j2 i2) \<and>
     arr_is dl' T Z Y X (\<lambda>t2 k2 j2 i2. if t2 = nat t \<and> k2 = nat k \<and> int i2 \<in> set ixs
                                     then max (g t2 k2 j2 i2) (b64 (lam * b64 (1 - b64 (real_of_int (num (int i2)) / real_of_int bw))))
                                     else g t2 k2 j2 i2)"
proof -
  define Q where "Q = (\<lambda>(pre :: int list) (st :: ndarray \<times> ndarray).
     arr_is (fst st) T Z Y X (\<lambda>t2 k2 j2 i2. if t2 = nat t \<and> k2 = nat k \<and> int i2 \<in> set pre
                                     then v else f t2 k2 j2 i2) \<and>
     arr_is (snd st) T Z Y X (\<lambda>t2 k2 j2 i2. if t2 = nat t \<and> k2 = nat k \<and> int i2 \<in> set pre
                                     then max (g t2 k2 j2 i2) (b64 (lam * b64 (1 - b64 (real_of_int (num (int i2)) / real_of_int bw))))
                                     else g t2 k2 j2 i2))"
  have init: "Q [] (d, dl)" using d dl by (simp add: Q_def)
  have step: "\<exists>s2. (\<lambda>i (d, dl).
        bindE (py_truediv (num i) bw) (\<lambda>q.
        let weight = b64 (1 - q) in
        bindE (assign_col d t k i v) (\<lambda>d'.
        bindE (maximum_col dl t k i (b64 (lam * weight))) (\<lambda>dl'.
        Inr (d', dl'))))) x s1 = Inr s2 \<and> Q (pre @ [x]) s2"
    if xs: "ixs = pre @ x # post" and q: "Q pre s1" for pre x post s1
  proof -
    obtain d1 dl1 where s1: "s1 = (d1, dl1)" by (cases s1)
    from xs rng have x: "0 \<le> x" "x < int X" by auto
    from q s1 have a1: "arr_is d1 T Z Y X (\<lambda>t2 k2 j2 i2. if t2 = nat t \<and> k2 = nat k \<and> int i2 \<in> set pre
                                     then v else f t2 k2 j2 i2)"
      and a2: "arr_is dl1 T Z Y X (\<lambda>t2 k2 j2 i2. if t2 = nat t \<and> k2 = nat k \<and> int i2 \<in> set pre
                                     then max (g t2 k2 j2 i2) (b64 (lam * b64 (1 - b64 (real_of_int (num (int i2)) / real_of_int bw))))
                                     else g t2 k2 j2 i2)"
      by (simp_all add: Q_def)
    from update_col_arr[OF a1 t k x, of "\<lambda>_. v"] obtain d2 where
      d2: "assign_col d1 t k x v = Inr d2" and
      a3: "arr_is d2 T Z Y X (\<lambda>t2 k2 j2 i2. if t2 = nat t \<and> k2 = nat k \<and> i2 = nat x then v
             else if t2 = nat t \<and> k2 = nat k \<and> int i2 \<in> set pre then v else f t2 k2 j2 i2)"
      by (auto simp: assign_col_def)
    from update_col_arr[OF a2 t k x, of "\<lambda>y. max y (b64 (lam * b64 (1 - b64 (real_of_int (num x) / real_of_int bw))))"]
    obtain dl2 where
      dl2: "maximum_col dl1 t k x (b64 (lam * b64 (1 - b64 (real_of_int (num x) / real_of_int bw)))) = Inr dl2" and
      a4: "arr_is dl2 T Z Y X (\<lambda>t2 k2 j2 i2. if t2 = nat t \<and> k2 = nat k \<and> i2 = nat x
             then max (if t2 = nat t \<and> k2 = nat k \<and> int i2 \<in> set pre
                                     then max (g t2 k2 j2 i2) (b64 (lam * b64 (1 - b64 (real_of_int (num (int i2)) / real_of_int bw))))
                                     else g t2 k2 j2 i2) (b64 (lam * b64 (1 - b64 (real_of_int (num x) / real_of_int bw))))
             else if t2 = nat t \<and> k2 = nat k \<and> int i2 \<in> set pre
                                     then max (g t2 k2 j2 i2) (b64 (lam * b64 (1 - b64 (real_of_int (num (int i2)) / real_of_int bw))))
                                     else g t2 k2 j2 i2)"
      by (auto simp: maximum_col_def)
    have b3: "arr_is d2 T Z Y X (\<lambda>t2 k2 j2 i2. if t2 = nat t \<and> k2 = nat k \<and> int i2 \<in> set (pre @ [x])
                                     then v else f t2 k2 j2 i2)"
      by (rule arr_is_cong[OF a3]) (use x in auto)
    have b4: "arr_is dl2 T Z Y X (\<lambda>t2 k2 j2 i2. if t2 = nat t \<and> k2 = nat k \<and> int i2 \<in> set (pre @ [x])
                                     then max (g t2 k2 j2 i2) (b64 (lam * b64 (1 - b64 (real_of_int (num (int i2)) / real_of_int bw))))
                                     else g t2 k2 j2 i2)"
      by (rule arr_is_cong[OF a4]) (use x in auto)
    from bw xs have "0 \<le> num x" "num x < bw" by auto
    then have q: "py_truediv (num x) bw = Inr (b64 (real_of_int (num x) / real_of_int bw))"
      by (rule py_truediv_frac)
    show ?thesis
      using d2 dl2 b3 b4 q by (simp add: s1 bindE_def Q_def)
  qed
  from for_each_rule[of Q "(d, dl)" ixs, OF init step]
  show ?thesis by (auto simp: taper_cols_def Q_def)
qed

lemma taper_rows_arr:
  assumes d: "arr_is d T Z Y X f" and dl: "arr_is dl T Z Y X g"
    and t: "0 \<le> t" "t < int T" and k: "0 \<le> k" "k < int Z"
    and rng: "\<forall>i\<in>set ixs. 0 \<le> i \<and> i < int Y" and bw: "\<forall>i\<in>set ixs. 0 \<le> num i \<and> num i < bw"
  shows "\<exists>d' dl'. taper_rows num bw v lam t k ixs (d, dl) = Inr (d', dl') \<and>
     arr_is d' T Z Y X (\<lambda>t2 k2 j2 i2. if t2 = nat t \<and> k2 = nat k \<and> int j2 \<in> set ixs
                                     then v else f t2 k2 j2 i2) \<and>
     arr_is dl' T Z Y X (\<lambda>t2 k2 j2 i2. if t2 = nat t \<and> k2 = nat k \<and> int j2 \<in> set ixs
                                     then max (g t2 k2 j2 i2) (b64 (lam * b64 (1 - b64 (real_of_int (num (int j2)) / real_of_int bw))))
                                     else g t2 k2 j2 i2)"
proof -
  define Q where "Q = (\<lambda>(pre :: int list) (st :: ndarray \<times> ndarray).
     arr_is (fst st) T Z Y X (\<lambda>t2 k2 j2 i2. if t2 = nat t \<and> k2 = nat k \<and> int j2 \<in> set pre
                                     then v else f t2 k2 j2 i2) \<and>
     arr_is (snd st) T Z Y X (\<lambda>t2 k2 j2 i2. if t2 = nat t \<and> k2 = nat k \<and> int j2 \<in> set pre
                                     then max (g t2 k2 j2 i2) (b64 (lam * b64 (1 - b64 (real_of_int (num (int j2)) / real_of_int bw))))
                                     else g t2 k2 j2 i2))"
  have init: "Q [] (d, dl)" using d dl by (simp add: Q_def)
  have step: "\<exists>s2. (\<lambda>i (d, dl).
        bindE (py_truediv (num i) bw) (\<lambda>q.
        let weight = b64 (1 - q) in
        bindE (assign_row d t k i v) (\<lambda>d'.
        bindE (maximum_row dl t k i (b64 (lam * weight))) (\<lambda>dl'.
        Inr (d', dl'))))) x s1 = Inr s2 \<and> Q (pre @ [x]) s2"
    if xs: "ixs = pre @ x # post" and q: "Q pre s1" for pre x post s1
  proof -
    obtain d1 dl1 where s1: "s1 = (d1, dl1)" by (cases s1)
    from xs rng have x: "0 \<le> x" "x < int Y" by auto
    from q s1 have a1: "arr_is d1 T Z Y X (\<lambda>t2 k2 j2 i2. if t2 = nat t \<and> k2 = nat k \<and> int j2 \<in> set pre
                                     then v else f t2 k2 j2 i2)"
      and a2: "arr_is dl1 T Z Y X (\<lambda>t2 k2 j2 i2. if t2 = nat t \<and> k2 = nat k \<and> int j2 \<in> set pre
                                     then max (g t2 k2 j2 i2) (b64 (lam * b64 (1 - b64 (real_of_int (num (int j2)) / real_of_int bw))))
                                     else g t2 k2 j2 i2)"
      by (simp_all add: Q_def)
    from update_row_arr[OF a1 t k x, of "\<lambda>_. v"] obtain d2 where
      d2: "assign_row d1 t k x v = Inr d2" and
      a3: "arr_is d2 T Z Y X (\<lambda>t2 k2 j2 i2. if t2 = nat t \<and> k2 = nat k \<and> j2 = nat x then v
             else if t2 = nat t \<and> k2 = nat k \<and> int j2 \<in> set pre then v else f t2 k2 j2 i2)"
      by (auto simp: assign_row_def)
    from update_row_arr[OF a2 t k x, of "\<lambda>y. max y (b64 (lam * b64 (1 - b64 (real_of_int (num x) / real_of_int bw))))"]
    obtain dl2 where
      dl2: "maximum_row dl1 t k x (b64 (lam * b64 (1 - b64 (real_of_int (num x) / real_of_int bw)))) = Inr dl2" and
      a4: "arr_is dl2 T Z Y X (\<lambda>t2 k2 j2 i2. if t2 = nat t \<and> k2 = nat k \<and> j2 = nat x
             then max (if t2 = nat t \<and> k2 = nat k \<and> int j2 \<in> set pre
                                     then max (g t2 k2 j2 i2) (b64 (lam * b64 (1 - b64 (real_of_int (num (int j2)) / real_of_int bw))))
                                     else g t2 k2 j2 i2) (b64 (lam * b64 (1 - b64 (real_of_int (num x) / real_of_int bw))))
             else if t2 = nat t \<and> k2 = nat k \<and> int j2 \<in> set pre
                                     then max (g t2 k2 j2 i2) (b64 (lam * b64 (1 - b64 (real_of_int (num (int j2)) / real_of_int bw))))
                                     else g t2 k2 j2 i2)"
      by (auto simp: maximum_row_def)
    have b3: "arr_is d2 T Z Y X (\<lambda>t2 k2 j2 i2. if t2 = nat t \<and> k2 = nat k \<and> int j2 \<in> set (pre @ [x])
                                     then v else f t2 k2 j2 i2)"
      by (rule arr_is_cong[OF a3]) (use x in auto)
    have b4: "arr_is dl2 T Z Y X (\<lambda>t2 k2 j2 i2. if t2 = nat t \<and> k2 = nat k \<and> int j2 \<in> set (pre @ [x])
                                     then max (g t2 k2 j2 i2) (b64 (lam * b64 (1 - b64 (real_of_int (num (int j2)) / real_of_int bw))))
                                     else g t2 k2 j2 i2)"
      by (rule arr_is_cong[OF a4]) (use x in auto)
    from bw xs have "0 \<le> num x" "num x < bw" by auto
    then have q: "py_truediv (num x) bw = Inr (b64 (real_of_int (num x) / real_of_int bw))"
      by (rule py_truediv_frac)
    show ?thesis
      using d2 dl2 b3 b4 q by (simp add: s1 bindE_def Q_def)
  qed
  from for_each_rule[of Q "(d, dl)" ixs, OF init step]
  show ?thesis by (auto simp: taper_rows_def Q_def)
qed

lemma set_py_range: "set (py_range lo hi) = {i. lo \<le> i \<and> i < hi}"
  by (auto simp: py_range_def)

lemma distinct_py_range: "distinct (py_range lo hi)"
  by (simp add: py_range_def)

lemma west_edge_arr:
  assumes d: "arr_is d T Z Y X f" and dl: "arr_is dl T Z Y X h"
    and t: "0 \<le> t" "t < int T" and k: "0 \<le> k" "k < int Z"
    and X: "int X = Nx g"
  shows "\<exists>d' dl'.
     (if edge_value cfg West > - 990
      then west_boundary g bw (edge_value cfg West) (lambda_scale cfg) t k (d, dl)
      else Inr (d, dl)) = Inr (d', dl') \<and>
     arr_is d' T Z Y X (\<lambda>t2 k2 j2 i2. if t2 = nat t \<and> k2 = nat k
        then step_value g cfg bw West j2 i2 (f t2 k2 j2 i2) else f t2 k2 j2 i2) \<and>
     arr_is dl' T Z Y X (\<lambda>t2 k2 j2 i2. if t2 = nat t \<and> k2 = nat k
        then step_rate g cfg bw West j2 i2 (h t2 k2 j2 i2) else h t2 k2 j2 i2)"
proof (cases "edge_value cfg West > - 990")
  case False
  have "arr_is d T Z Y X (\<lambda>t2 k2 j2 i2. if t2 = nat t \<and> k2 = nat k
        then step_value g cfg bw West j2 i2 (f t2 k2 j2 i2) else f t2 k2 j2 i2)"
    by (rule arr_is_cong[OF d]) (use False in \<open>simp add: step_value_def edge_is_set_def\<close>)
  moreover have "arr_is dl T Z Y X (\<lambda>t2 k2 j2 i2. if t2 = nat t \<and> k2 = nat k
        then step_rate g cfg bw West j2 i2 (h t2 k2 j2 i2) else h t2 k2 j2 i2)"
    by (rule arr_is_cong[OF dl]) (use False in \<open>simp add: step_rate_def edge_is_set_def\<close>)
  ultimately show ?thesis
    using False by simp
next
  case True
  let ?ixs = "py_range 0 (min bw (Nx g))"
  have rng: "\<forall>i\<in>set ?ixs. 0 \<le> i \<and> i < int X"
    using X by (auto simp: set_py_range)
  have bw: "\<forall>i\<in>set ?ixs. 0 \<le> i \<and> i < bw"
    by (auto simp: set_py_range)
  from taper_cols_arr[where num = "\<lambda>i. i" and v = "edge_value cfg West" and lam = "lambda_scale cfg", OF d dl t k rng bw]
  obtain d' dl' where
    r: "taper_cols (\<lambda>i. i) bw (edge_value cfg West) (lambda_scale cfg) t k ?ixs (d, dl) = Inr (d', dl')"
    and a1: "arr_is d' T Z Y X (\<lambda>t2 k2 j2 i2. if t2 = nat t \<and> k2 = nat k \<and> int i2 \<in> set ?ixs
                                     then edge_value cfg West else f t2 k2 j2 i2)"
    and a2: "arr_is dl' T Z Y X (\<lambda>t2 k2 j2 i2. if t2 = nat t \<and> k2 = nat k \<and> int i2 \<in> set ?ixs
               then max (h t2 k2 j2 i2) (b64 (lambda_scale cfg * b64 (1 - b64 (real_of_int (int i2) / real_of_int bw))))
               else h t2 k2 j2 i2)"
    by blast
  have b1: "arr_is d' T Z Y X (\<lambda>t2 k2 j2 i2. if t2 = nat t \<and> k2 = nat k
        then step_value g cfg bw West j2 i2 (f t2 k2 j2 i2) else f t2 k2 j2 i2)"
    by (rule arr_is_cong[OF a1])
       (use True in \<open>auto simp: step_value_def edge_is_set_def set_py_range\<close>)
  have b2: "arr_is dl' T Z Y X (\<lambda>t2 k2 j2 i2. if t2 = nat t \<and> k2 = nat k
        then step_rate g cfg bw West j2 i2 (h t2 k2 j2 i2) else h t2 k2 j2 i2)"
    by (rule arr_is_cong[OF a2])
       (use True in \<open>auto simp: step_rate_def edge_rate_def edge_is_set_def set_py_range\<close>)
  show ?thesis
    using True r b1 b2 by (simp add: west_boundary_def taper_cols_def)
qed

lemma east_edge_arr:
  assumes d: "arr_is d T Z Y X f" and dl: "arr_is dl T Z Y X h"
    and t: "0 \<le> t" "t < int T" and k: "0 \<le> k" "k < int Z"
    and X: "int X = Nx g"
  shows "\<exists>d' dl'.
     (if edge_value cfg East > - 990
      then east_boundary g bw (edge_value cfg East) (lambda_scale cfg) t k (d, dl)
      else Inr (d, dl)) = Inr (d', dl') \<and>
     arr_is d' T Z Y X (\<lambda>t2 k2 j2 i2. if t2 = nat t \<and> k2 = nat k
        then step_value g cfg bw East j2 i2 (f t2 k2 j2 i2) else f t2 k2 j2 i2) \<and>
     arr_is dl' T Z Y X (\<lambda>t2 k2 j2 i2. if t2 = nat t \<and> k2 = nat k
        then step_rate g cfg bw East j2 i2 (h t2 k2 j2 i2) else h t2 k2 j2 i2)"
proof (cases "edge_value cfg East > - 990")
  case False
  have "arr_is d T Z Y X (\<lambda>t2 k2 j2 i2. if t2 = nat t \<and> k2 = nat k
        then step_value g cfg bw East j2 i2 (f t2 k2 j2 i2) else f t2 k2 j2 i2)"
    by (rule arr_is_cong[OF d]) (use False in \<open>simp add: step_value_def edge_is_set_def\<close>)
  moreover have "arr_is dl T Z Y X (\<lambda>t2 k2 j2 i2. if t2 = nat t \<and> k2 = nat k
        then step_rate g cfg bw East j2 i2 (h t2 k2 j2 i2) else h t2 k2 j2 i2)"
    by (rule arr_is_cong[OF dl]) (use False in \<open>simp add: step_rate_def edge_is_set_def\<close>)
  ultimately show ?thesis
    using False by simp
next
  case True
  let ?ixs = "py_range (max 0 (Nx g - bw)) (Nx g)"
  have rng: "\<forall>i\<in>set ?ixs. 0 \<le> i \<and> i < int X"
    using X by (auto simp: set_py_range)
  have bw: "\<forall>i\<in>set ?ixs. 0 \<le> Nx g - 1 - i \<and> Nx g - 1 - i < bw"
    by (auto simp: set_py_range)
  from taper_cols_arr[where num = "\<lambda>i. Nx g - 1 - i" and v = "edge_value cfg East" and lam = "lambda_scale cfg", OF d dl t k rng bw]
  obtain d' dl' where
    r: "taper_cols (\<lambda>i. Nx g - 1 - i) bw (edge_value cfg East) (lambda_scale cfg) t k ?ixs (d, dl) = Inr (d', dl')"
    and a1: "arr_is d' T Z Y X (\<lambda>t2 k2 j2 i2. if t2 = nat t \<and> k2 = nat k \<and> int i2 \<in> set ?ixs
                                     then edge_value cfg East else f t2 k2 j2 i2)"
    and a2: "arr_is dl' T Z Y X (\<lambda>t2 k2 j2 i2. if t2 = nat t \<and> k2 = nat k \<and> int i2 \<in> set ?ixs
               then max (h t2 k2 j2 i2) (b64 (lambda_scale cfg * b64 (1 - b64 (real_of_int (Nx g - 1 - int i2) / real_of_int bw))))
               else h t2 k2 j2 i2)"
    by blast
  have b1: "arr_is d' T Z Y X (\<lambda>t2 k2 j2 i2. if t2 = nat t \<and> k2 = nat k
        then step_value g cfg bw East j2 i2 (f t2 k2 j2 i2) else f t2 k2 j2 i2)"
    by (rule arr_is_cong[OF a1])
       (use True in \<open>auto simp: step_value_def edge_is_set_def set_py_range\<close>)
  have b2: "arr_is dl' T Z Y X (\<lambda>t2 k2 j2 i2. if t2 = nat t \<and> k2 = nat k
        then step_rate g cfg bw East j2 i2 (h t2 k2 j2 i2) else h t2 k2 j2 i2)"
    by (rule arr_is_cong[OF a2])
       (use True in \<open>auto simp: step_rate_def edge_rate_def edge_is_set_def set_py_range\<close>)
  show ?thesis
    using True r b1 b2 by (simp add: east_boundary_def taper_cols_def)
qed

lemma south_edge_arr:
  assumes d: "arr_is d T Z Y X f" and dl: "arr_is dl T Z Y X h"
    and t: "0 \<le> t" "t < int T" and k: "0 \<le> k" "k < int Z"
    and Y: "int Y = Ny g"
  shows "\<exists>d' dl'.
     (if edge_value cfg South > - 990
      then south_boundary g bw (edge_value cfg South) (lambda_scale cfg) t k (d, dl)
      else Inr (d, dl)) = Inr (d', dl') \<and>
     arr_is d' T Z Y X (\<lambda>t2 k2 j2 i2. if t2 = nat t \<and> k2 = nat k
        then step_value g cfg bw South j2 i2 (f t2 k2 j2 i2) else f t2 k2 j2 i2) \<and>
     arr_is dl' T Z Y X (\<lambda>t2 k2 j2 i2. if t2 = nat t \<and> k2 = nat k
        then step_rate g cfg bw South j2 i2 (h t2 k2 j2 i2) else h t2 k2 j2 i2)"
proof (cases "edge_value cfg South > - 990")
  case False
  have "arr_is d T Z Y X (\<lambda>t2 k2 j2 i2. if t2 = nat t \<and> k2 = nat k
        then step_value g cfg bw South j2 i2 (f t2 k2 j2 i2) else f t2 k2 j2 i2)"
    by (rule arr_is_cong[OF d]) (use False in \<open>simp add: step_value_def edge_is_set_def\<close>)
  moreover have "arr_is dl T Z Y X (\<lambda>t2 k2 j2 i2. if t2 = nat t \<and> k2 = nat k
        then step_rate g cfg bw South j2 i2 (h t2 k2 j2 i2) else h t2 k2 j2 i2)"
    by (rule arr_is_cong[OF dl]) (use False in \<open>simp add: step_rate_def edge_is_set_def\<close>)
  ultimately show ?thesis
    using False by simp
next
  case True
  let ?ixs = "py_range 0 (min bw (Ny g))"
  have rng: "\<forall>i\<in>set ?ixs. 0 \<le> i \<and> i < int Y"
    using Y by (auto simp: set_py_range)
  have bw: "\<forall>i\<in>set ?ixs. 0 \<le> i \<and> i < bw"
    by (auto simp: set_py_range)
  from taper_rows_arr[where num = "\<lambda>i. i" and v = "edge_value cfg South" and lam = "lambda_scale cfg", OF d dl t k rng bw]
  obtain d' dl' where
    r: "taper_rows (\<lambda>i. i) bw (edge_value cfg South) (lambda_scale cfg) t k ?ixs (d, dl) = Inr (d', dl')"
    and a1: "arr_is d' T Z Y X (\<lambda>t2 k2 j2 i2. if t2 = nat t \<and> k2 = nat k \<and> int j2 \<in> set ?ixs
                                     then edge_value cfg South else f t2 k2 j2 i2)"
    and a2: "arr_is dl' T Z Y X (\<lambda>t2 k2 j2 i2. if t2 = nat t \<and> k2 = nat k \<and> int j2 \<in> set ?ixs
               then max (h t2 k2 j2 i2) (b64 (lambda_scale cfg * b64 (1 - b64 (real_of_int (int j2) / real_of_int bw))))
               else h t2 k2 j2 i2)"
    by blast
  have b1: "arr_is d' T Z Y X (\<lambda>t2 k2 j2 i2. if t2 = nat t \<and> k2 = nat k
        then step_value g cfg bw South j2 i2 (f t2 k2 j2 i2) else f t2 k2 j2 i2)"
    by (rule arr_is_cong[OF a1])
       (use True in \<open>auto simp: step_value_def edge_is_set_def set_py_range\<close>)
  have b2: "arr_is dl' T Z Y X (\<lambda>t2 k2 j2 i2. if t2 = nat t \<and> k2 = nat k
        then step_rate g cfg bw South j2 i2 (h t2 k2 j2 i2) else h t2 k2 j2 i2)"
    by (rule arr_is_cong[OF a2])
       (use True in \<open>auto simp: step_rate_def edge_rate_def edge_is_set_def set_py_range\<close>)
  show ?thesis
    using True r b1 b2 by (simp add: south_boundary_def taper_rows_def)
qed

lemma north_edge_arr:
  assumes d: "arr_is d T Z Y X f" and dl: "arr_is dl T Z Y X h"
    and t: "0 \<le> t" "t < int T" and k: "0 \<le> k" "k < int Z"
    and Y: "int Y = Ny g"
  shows "\<exists>d' dl'.
     (if edge_value cfg North > - 990
      then north_boundary g bw (edge_value cfg North) (lambda_scale cfg) t k (d, dl)
      else Inr (d, dl)) = Inr (d', dl') \<and>
     arr_is d' T Z Y X (\<lambda>t2 k2 j2 i2. if t2 = nat t \<and> k2 = nat k
        then step_value g cfg bw North j2 i2 (f t2 k2 j2 i2) else f t2 k2 j2 i2) \<and>
     arr_is dl' T Z Y X (\<lambda>t2 k2 j2 i2. if t2 = nat t \<and> k2 = nat k
        then step_rate g cfg bw North j2 i2 (h t2 k2 j2 i2) else h t2 k2 j2 i2)"
proof (cases "edge_value cfg North > - 990")
  case False
  have "arr_is d T Z Y X (\<lambda>t2 k2 j2 i2. if t2 = nat t \<and> k2 = nat k
        then step_value g cfg bw North j2 i2 (f t2 k2 j2 i2) else f t2 k2 j2 i2)"
    by (rule arr_is_cong[OF d]) (use False in \<open>simp add: step_value_def edge_is_set_def\<close>)
  moreover have "arr_is dl T Z Y X (\<lambda>t2 k2 j2 i2. if t2 = nat t \<and> k2 = nat k
        then step_rate g cfg bw North j2 i2 (h t2 k2 j2 i2) else h t2 k2 j2 i2)"
    by (rule arr_is_cong[OF dl]) (use False in \<open>simp add: step_rate_def edge_is_set_def\<close>)
  ultimately show ?thesis
    using False by simp
next
  case True
  let ?ixs = "py_range (max 0 (Ny g - bw)) (Ny g)"
  have rng: "\<forall>i\<in>set ?ixs. 0 \<le> i \<and> i < int Y"
    using Y by (auto simp: set_py_range)
  have bw: "\<forall>i\<in>set ?ixs. 0 \<le> Ny g - 1 - i \<and> Ny g - 1 - i < bw"
    by (auto simp: set_py_range)
  from taper_rows_arr[where num = "\<lambda>i. Ny g - 1 - i" and v = "edge_value cfg North" and lam = "lambda_scale cfg", OF d dl t k rng bw]
  obtain d' dl' where
    r: "taper_rows (\<lambda>i. Ny g - 1 - i) bw (edge_value cfg North) (lambda_scale cfg) t k ?ixs (d, dl) = Inr (d', dl')"
    and a1: "arr_is d' T Z Y X (\<lambda>t2 k2 j2 i2. if t2 = nat t \<and> k2 = nat k \<and> int j2 \<in> set ?ixs
                                     then edge_value cfg North else f t2 k2 j2 i2)"
    and a2: "arr_is dl' T Z Y X (\<lambda>t2 k2 j2 i2. if t2 = nat t \<and> k2 = nat k \<and> int j2 \<in> set ?ixs
               then max (h t2 k2 j2 i2) (b64 (lambda_scale cfg * b64 (1 - b64 (real_of_int (Ny g - 1 - int j2) / real_of_int bw))))
               else h t2 k2 j2 i2)"
    by blast
  have b1: "arr_is d' T Z Y X (\<lambda>t2 k2 j2 i2. if t2 = nat t \<and> k2 = nat k
        then step_value g cfg bw North j2 i2 (f t2 k2 j2 i2) else f t2 k2 j2 i2)"
    by (rule arr_is_cong[OF a1])
       (use True in \<open>auto simp: step_value_def edge_is_set_def set_py_range\<close>)
  have b2: "arr_is dl' T Z Y X (\<lambda>t2 k2 j2 i2. if t2 = nat t \<and> k2 = nat k
        then step_rate g cfg bw North j2 i2 (h t2 k2 j2 i2) else h t2 k2 j2 i2)"
    by (rule arr_is_cong[OF a2])
       (use True in \<open>auto simp: step_rate_def edge_rate_def edge_is_set_def set_py_range\<close>)
  show ?thesis
    using True r b1 b2 by (simp add: north_boundary_def taper_rows_def)
qed

lemma boundary_arrays_all_edges:
  "boundary_arrays g cfg bw =
     bindE (np_full (num_steps g) (Nz g) (Ny g) (Nx g) (- 999)) (\<lambda>data.
     bindE (np_full (num_steps g) (Nz g) (Ny g) (Nx g) 0) (\<lambda>data_lambda.
       for_each (\<lambda>t. for_each (all_edges g cfg bw t) (py_range 0 (Nz g)))
         (py_range 0 (num_steps g)) (data, data_lambda)))"
  by (simp add: boundary_arrays_def all_edges_def[abs_def] edge_value_def lambda_scale_def Let_def
      cong: if_cong)

lemma all_edges_arr:
  assumes d: "arr_is d T Z Y X f" and dl: "arr_is dl T Z Y X h"
    and t: "0 \<le> t" "t < int T" and k: "0 \<le> k" "k < int Z"
    and X: "int X = Nx g" and Y: "int Y = Ny g"
  shows "\<exists>d' dl'. all_edges g cfg bw t k (d, dl) = Inr (d', dl') \<and>
     arr_is d' T Z Y X (\<lambda>t2 k2 j2 i2. if t2 = nat t \<and> k2 = nat k
        then plane_value g cfg bw j2 i2 (f t2 k2 j2 i2) else f t2 k2 j2 i2) \<and>
     arr_is dl' T Z Y X (\<lambda>t2 k2 j2 i2. if t2 = nat t \<and> k2 = nat k
        then plane_rate g cfg bw j2 i2 (h t2 k2 j2 i2) else h t2 k2 j2 i2)"
proof -
  from west_edge_arr[OF d dl t k X, of cfg bw] obtain d1 dl1 where
    r1: "(if edge_value cfg West > - 990
          then west_boundary g bw (edge_value cfg West) (lambda_scale cfg) t k (d, dl)
          else Inr (d, dl)) = Inr (d1, dl1)"
    and a1: "arr_is d1 T Z Y X (\<lambda>t2 k2 j2 i2. if t2 = nat t \<and> k2 = nat k
        then step_value g cfg bw West j2 i2 (f t2 k2 j2 i2) else f t2 k2 j2 i2)"
    and b1: "arr_is dl1 T Z Y X (\<lambda>t2 k2 j2 i2. if t2 = nat t \<and> k2 = nat k
        then step_rate g cfg bw West j2 i2 (h t2 k2 j2 i2) else h t2 k2 j2 i2)"
    by blast
  from east_edge_arr[OF a1 b1 t k X, of cfg bw] obtain d2 dl2 where
    r2: "(if edge_value cfg East > - 990
          then east_boundary g bw (edge_value cfg East) (lambda_scale cfg) t k (d1, dl1)
          else Inr (d1, dl1)) = Inr (d2, dl2)"
    and a2: "arr_is d2 T Z Y X (\<lambda>t2 k2 j2 i2. if t2 = nat t \<and> k2 = nat k
        then step_value g cfg bw East j2 i2 (if t2 = nat t \<and> k2 = nat k
        then step_value g cfg bw West j2 i2 (f t2 k2 j2 i2) else f t2 k2 j2 i2)
        else (if t2 = nat t \<and> k2 = nat k
        then step_value g cfg bw West j2 i2 (f t2 k2 j2 i2) else f t2 k2 j2 i2))"
    and b2: "arr_is dl2 T Z Y X (\<lambda>t2 k2 j2 i2. if t2 = nat t \<and> k2 = nat k
        then step_rate g cfg bw East j2 i2 (if t2 = nat t \<and> k2 = nat k
        then step_rate g cfg bw West j2 i2 (h t2 k2 j2 i2) else h t2 k2 j2 i2)
        else (if t2 = nat t \<and> k2 = nat k
        then step_rate g cfg bw West j2 i2 (h t2 k2 j2 i2) else h t2 k2 j2 i2))"
    by blast
  have a2': "arr_is d2 T Z Y X (\<lambda>t2 k2 j2 i2. if t2 = nat t \<and> k2 = nat k
        then step_value g cfg bw East j2 i2 (step_value g cfg bw West j2 i2 (f t2 k2 j2 i2))
        else f t2 k2 j2 i2)"
    by (rule arr_is_cong[OF a2]) simp
  have b2': "arr_is dl2 T Z Y X (\<lambda>t2 k2 j2 i2. if t2 = nat t \<and> k2 = nat k
        then step_rate g cfg bw East j2 i2 (step_rate g cfg bw West j2 i2 (h t2 k2 j2 i2))
        else h t2 k2 j2 i2)"
    by (rule arr_is_cong[OF b2]) simp
  from south_edge_arr[OF a2' b2' t k Y, of cfg bw] obtain d3 dl3 where
    r3: "(if edge_value cfg South > - 990
          then south_boundary g bw (edge_value cfg South) (lambda_scale cfg) t k (d2, dl2)
          else Inr (d2, dl2)) = Inr (d3, dl3)"
    and a3: "arr_is d3 T Z Y X (\<lambda>t2 k2 j2 i2. if t2 = nat t \<and> k2 = nat k
        then step_value g cfg bw South j2 i2 (if t2 = nat t \<and> k2 = nat k
        then step_value g cfg bw East j2 i2 (step_value g cfg bw West j2 i2 (f t2 k2 j2 i2))
        else f t2 k2 j2 i2)
        else (if t2 = nat t \<and> k2 = nat k
        then step_value g cfg bw East j2 i2 (step_value g cfg bw West j2 i2 (f t2 k2 j2 i2))
        else f t2 k2 j2 i2))"
    and b3: "arr_is dl3 T Z Y X (\<lambda>t2 k2 j2 i2. if t2 = nat t \<and> k2 = nat k
        then step_rate g cfg bw South j2 i2 (if t2 = nat t \<and> k2 = nat k
        then step_rate g cfg bw East j2 i2 (step_rate g cfg bw West j2 i2 (h t2 k2 j2 i2))
        else h t2 k2 j2 i2)
        else (if t2 = nat t \<and> k2 = nat k
        then step_rate g cfg bw East j2 i2 (step_rate g cfg bw West j2 i2 (h t2 k2 j2 i2))
        else h t2 k2 j2 i2))"
    by blast
  have a3': "arr_is d3 T Z Y X (\<lambda>t2 k2 j2 i2. if t2 = nat t \<and> k2 = nat k
        then step_value g cfg bw South j2 i2
          (step_value g cfg bw East j2 i2 (step_value g cfg bw West j2 i2 (f t2 k2 j2 i2)))
        else f t2 k2 j2 i2)"
    by (rule arr_is_cong[OF a3]) simp
  have b3': "arr_is dl3 T Z Y X (\<lambda>t2 k2 j2 i2. if t2 = nat t \<and> k2 = nat k
        then step_rate g cfg bw South j2 i2
          (step_rate g cfg bw East j2 i2 (step_rate g cfg bw West j2 i2 (h t2 k2 j2 i2)))
        else h t2 k2 j2 i2)"
    by (rule arr_is_cong[OF b3]) simp
  from north_edge_arr[OF a3' b3' t k Y, of cfg bw] obtain d4 dl4 where
    r4: "(if edge_value cfg North > - 990
          then north_boundary g bw (edge_value cfg North) (lambda_scale cfg) t k (d3, dl3)
          else Inr (d3, dl3)) = Inr (d4, dl4)"
    and a4: "arr_is d4 T Z Y X (\<lambda>t2 k2 j2 i2. if t2 = nat t \<and> k2 = nat k
        then step_value g cfg bw North j2 i2 (if t2 = nat t \<and> k2 = nat k
        then step_value g cfg bw South j2 i2
          (step_value g cfg bw East j2 i2 (step_value g cfg bw West j2 i2 (f t2 k2 j2 i2)))
        else f t2 k2 j2 i2)
        else (if t2 = nat t \<and> k2 = nat k
        then step_value g cfg bw South j2 i2
          (step_value g cfg bw East j2 i2 (step_value g cfg bw West j2 i2 (f t2 k2 j2 i2)))
        else f t2 k2 j2 i2))"
    and b4: "arr_is dl4 T Z Y X (\<lambda>t2 k2 j2 i2. if t2 = nat t \<and> k2 = nat k
        then step_rate g cfg bw North j2 i2 (if t2 = nat t \<and> k2 = nat k
        then step_rate g cfg bw South j2 i2
          (step_rate g cfg bw East j2 i2 (step_rate g cfg bw West j2 i2 (h t2 k2 j2 i2)))
        else h t2 k2 j2 i2)
        else (if t2 = nat t \<and> k2 = nat k
        then step_rate g cfg bw South j2 i2
          (step_rate g cfg bw East j2 i2 (step_rate g cfg bw West j2 i2 (h t2 k2 j2 i2)))
        else h t2 k2 j2 i2))"
    by blast
  have a4': "arr_is d4 T Z Y X (\<lambda>t2 k2 j2 i2. if t2 = nat t \<and> k2 = nat k
        then plane_value g cfg bw j2 i2 (f t2 k2 j2 i2) else f t2 k2 j2 i2)"
    by (rule arr_is_cong[OF a4]) (simp add: plane_value_def)
  have b4': "arr_is dl4 T Z Y X (\<lambda>t2 k2 j2 i2. if t2 = nat t \<and> k2 = nat k
        then plane_rate g cfg bw j2 i2 (h t2 k2 j2 i2) else h t2 k2 j2 i2)"
    by (rule arr_is_cong[OF b4]) (simp add: plane_rate_def)
  have "all_edges g cfg bw t k (d, dl) = Inr (d4, dl4)"
    unfolding all_edges_def r1 bindE_Inr r2 r3 r4 ..
  with a4' b4' show ?thesis by blast
qed

lemma depth_loop_arr:
  assumes d: "arr_is d T Z Y X f" and dl: "arr_is dl T Z Y X h"
    and t: "0 \<le> t" "t < int T"
    and Z: "int Z = Nz g" and X: "int X = Nx g" and Y: "int Y = Ny g"
  shows "\<exists>d' dl'. for_each (all_edges g cfg bw t) (py_range 0 (Nz g)) (d, dl) = Inr (d', dl') \<and>
     arr_is d' T Z Y X (\<lambda>t2 k2 j2 i2. if t2 = nat t
        then plane_value g cfg bw j2 i2 (f t2 k2 j2 i2) else f t2 k2 j2 i2) \<and>
     arr_is dl' T Z Y X (\<lambda>t2 k2 j2 i2. if t2 = nat t
        then plane_rate g cfg bw j2 i2 (h t2 k2 j2 i2) else h t2 k2 j2 i2)"
proof -
  define Q where "Q = (\<lambda>(pre :: int list) (st :: ndarray \<times> ndarray).
     arr_is (fst st) T Z Y X (\<lambda>t2 k2 j2 i2. if t2 = nat t \<and> int k2 \<in> set pre
        then plane_value g cfg bw j2 i2 (f t2 k2 j2 i2) else f t2 k2 j2 i2) \<and>
     arr_is (snd st) T Z Y X (\<lambda>t2 k2 j2 i2. if t2 = nat t \<and> int k2 \<in> set pre
        then plane_rate g cfg bw j2 i2 (h t2 k2 j2 i2) else h t2 k2 j2 i2))"
  have init: "Q [] (d, dl)" using d dl by (simp add: Q_def)
  have "\<exists>s'. for_each (all_edges g cfg bw t) (py_range 0 (Nz g)) (d, dl) = Inr s' \<and>
          Q (py_range 0 (Nz g)) s'"
  proof (rule for_each_rule[where Q = Q])
    show "Q [] (d, dl)" by (rule init)
  next
    fix pre x post s1
    assume xs: "py_range 0 (Nz g) = pre @ x # post" and q: "Q pre s1"
    obtain d1 dl1 where s1: "s1 = (d1, dl1)" by (cases s1)
    have "x \<in> set (py_range 0 (Nz g))" using xs by simp
    then have x: "0 \<le> x" "x < int Z" using Z by (auto simp: set_py_range)
    have "distinct (pre @ x # post)" using distinct_py_range[of 0 "Nz g"] xs by simp
    then have fresh: "x \<notin> set pre" by simp
    from q s1 have a1: "arr_is d1 T Z Y X (\<lambda>t2 k2 j2 i2. if t2 = nat t \<and> int k2 \<in> set pre
        then plane_value g cfg bw j2 i2 (f t2 k2 j2 i2) else f t2 k2 j2 i2)"
      and b1: "arr_is dl1 T Z Y X (\<lambda>t2 k2 j2 i2. if t2 = nat t \<and> int k2 \<in> set pre
        then plane_rate g cfg bw j2 i2 (h t2 k2 j2 i2) else h t2 k2 j2 i2)"
      by (simp_all add: Q_def)
    from all_edges_arr[OF a1 b1 t x X Y, of cfg bw] obtain d2 dl2 where
      r: "all_edges g cfg bw t x (d1, dl1) = Inr (d2, dl2)"
      and a2: "arr_is d2 T Z Y X (\<lambda>t2 k2 j2 i2. if t2 = nat t \<and> k2 = nat x
        then plane_value g cfg bw j2 i2 (if t2 = nat t \<and> int k2 \<in> set pre
          then plane_value g cfg bw j2 i2 (f t2 k2 j2 i2) else f t2 k2 j2 i2)
        else (if t2 = nat t \<and> int k2 \<in> set pre
          then plane_value g cfg bw j2 i2 (f t2 k2 j2 i2) else f t2 k2 j2 i2))"
      and b2: "arr_is dl2 T Z Y X (\<lambda>t2 k2 j2 i2. if t2 = nat t \<and> k2 = nat x
        then plane_rate g cfg bw j2 i2 (if t2 = nat t \<and> int k2 \<in> set pre
          then plane_rate g cfg bw j2 i2 (h t2 k2 j2 i2) else h t2 k2 j2 i2)
        else (if t2 = nat t \<and> int k2 \<in> set pre
          then plane_rate g cfg bw j2 i2 (h t2 k2 j2 i2) else h t2 k2 j2 i2))"
      by blast
    have a3: "arr_is d2 T Z Y X (\<lambda>t2 k2 j2 i2. if t2 = nat t \<and> int k2 \<in> set (pre @ [x])
        then plane_value g cfg bw j2 i2 (f t2 k2 j2 i2) else f t2 k2 j2 i2)"
      by (rule arr_is_cong[OF a2]) (use x fresh in auto)
    have b3: "arr_is dl2 T Z Y X (\<lambda>t2 k2 j2 i2. if t2 = nat t \<and> int k2 \<in> set (pre @ [x])
        then plane_rate g cfg bw j2 i2 (h t2 k2 j2 i2) else h t2 k2 j2 i2)"
      by (rule arr_is_cong[OF b2]) (use x fresh in auto)
    show "\<exists>s2. all_edges g cfg bw t x s1 = Inr s2 \<and> Q (pre @ [x]) s2"
      using r a3 b3 by (simp add: s1 Q_def)
  qed
  then obtain d' dl' where r: "for_each (all_edges g cfg bw t) (py_range 0 (Nz g)) (d, dl) = Inr (d', dl')"
    and a: "arr_is d' T Z Y X (\<lambda>t2 k2 j2 i2. if t2 = nat t \<and> int k2 \<in> set (py_range 0 (Nz g))
        then plane_value g cfg bw j2 i2 (f t2 k2 j2 i2) else f t2 k2 j2 i2)"
    and b: "arr_is dl' T Z Y X (\<lambda>t2 k2 j2 i2. if t2 = nat t \<and> int k2 \<in> set (py_range 0 (Nz g))
        then plane_rate g cfg bw j2 i2 (h t2 k2 j2 i2) else h t2 k2 j2 i2)"
    by (auto simp: Q_def)
  have a': "arr_is d' T Z Y X (\<lambda>t2 k2 j2 i2. if t2 = nat t
        then plane_value g cfg bw j2 i2 (f t2 k2 j2 i2) else f t2 k2 j2 i2)"
    by (rule arr_is_cong[OF a]) (use Z in \<open>auto simp: set_py_range\<close>)
  have b': "arr_is dl' T Z Y X (\<lambda>t2 k2 j2 i2. if t2 = nat t
        then plane_rate g cfg bw j2 i2 (h t2 k2 j2 i2) else h t2 k2 j2 i2)"
    by (rule arr_is_cong[OF b]) (use Z in \<open>auto simp: set_py_range\<close>)
  from r a' b' show ?thesis by blast
qed

lemma time_loop_arr:
  assumes d: "arr_is d T Z Y X f" and dl: "arr_is dl T Z Y X h"
    and T: "int T = num_steps g"
    and Z: "int Z = Nz g" and X: "int X = Nx g" and Y: "int Y = Ny g"
  shows "\<exists>d' dl'. for_each (\<lambda>t. for_each (all_edges g cfg bw t) (py_range 0 (Nz g)))
           (py_range 0 (num_steps g)) (d, dl) = Inr (d', dl') \<and>
     arr_is d' T Z Y X (\<lambda>t2 k2 j2 i2. plane_value g cfg bw j2 i2 (f t2 k2 j2 i2)) \<and>
     arr_is dl' T Z Y X (\<lambda>t2 k2 j2 i2. plane_rate g cfg bw j2 i2 (h t2 k2 j2 i2))"
proof -
  define Q where "Q = (\<lambda>(pre :: int list) (st :: ndarray \<times> ndarray).
     arr_is (fst st) T Z Y X (\<lambda>t2 k2 j2 i2. if int t2 \<in> set pre
        then plane_value g cfg bw j2 i2 (f t2 k2 j2 i2) else f t2 k2 j2 i2) \<and>
     arr_is (snd st) T Z Y X (\<lambda>t2 k2 j2 i2. if int t2 \<in> set pre
        then plane_rate g cfg bw j2 i2 (h t2 k2 j2 i2) else h t2 k2 j2 i2))"
  have init: "Q [] (d, dl)" using d dl by (simp add: Q_def)
  have "\<exists>s'. for_each (\<lambda>t. for_each (all_edges g cfg bw t) (py_range 0 (Nz g)))
           (py_range 0 (num_steps g)) (d, dl) = Inr s' \<and> Q (py_range 0 (num_steps g)) s'"
  proof (rule for_each_rule[where Q = Q])
    show "Q [] (d, dl)" by (rule init)
  next
    fix pre x post s1
    assume xs: "py_range 0 (num_steps g) = pre @ x # post" and q: "Q pre s1"
    obtain d1 dl1 where s1: "s1 = (d1, dl1)" by (cases s1)
    have "x \<in> set (py_range 0 (num_steps g))" using xs by simp
    then have x: "0 \<le> x" "x < int T" using T by (auto simp: set_py_range)
    have "distinct (pre @ x # post)" using distinct_py_range[of 0 "num_steps g"] xs by simp
    then have fresh: "x \<notin> set pre" by simp
    from q s1 have a1: "arr_is d1 T Z Y X (\<lambda>t2 k2 j2 i2. if int t2 \<in> set pre
        then plane_value g cfg bw j2 i2 (f t2 k2 j2 i2) else f t2 k2 j2 i2)"
      and b1: "arr_is dl1 T Z Y X (\<lambda>t2 k2 j2 i2. if int t2 \<in> set pre
        then plane_rate g cfg bw j2 i2 (h t2 k2 j2 i2) else h t2 k2 j2 i2)"
      by (simp_all add: Q_def)
    from depth_loop_arr[OF a1 b1 x Z X Y, of cfg bw] obtain d2 dl2 where
      r: "for_each (all_edges g cfg bw x) (py_range 0 (Nz g)) (d1, dl1) = Inr (d2, dl2)"
      and a2: "arr_is d2 T Z Y X (\<lambda>t2 k2 j2 i2. if t2 = nat x
        then plane_value g cfg bw j2 i2 (if int t2 \<in> set pre
          then plane_value g cfg bw j2 i2 (f t2 k2 j2 i2) else f t2 k2 j2 i2)
        else (if int t2 \<in> set pre
          then plane_value g cfg bw j2 i2 (f t2 k2 j2 i2) else f t2 k2 j2 i2))"
      and b2: "arr_is dl2 T Z Y X (\<lambda>t2 k2 j2 i2. if t2 = nat x
        then plane_rate g cfg bw j2 i2 (if int t2 \<in> set pre
          then plane_rate g cfg bw j2 i2 (h t2 k2 j2 i2) else h t2 k2 j2 i2)
        else (if int t2 \<in> set pre
          then plane_rate g cfg bw j2 i2 (h t2 k2 j2 i2) else h t2 k2 j2 i2))"
      by blast
    have a3: "arr_is d2 T Z Y X (\<lambda>t2 k2 j2 i2. if int t2 \<in> set (pre @ [x])
        then plane_value g cfg bw j2 i2 (f t2 k2 j2 i2) else f t2 k2 j2 i2)"
      by (rule arr_is_cong[OF a2]) (use x fresh in auto)
    have b3: "arr_is dl2 T Z Y X (\<lambda>t2 k2 j2 i2. if int t2 \<in> set (pre @ [x])
        then plane_rate g cfg bw j2 i2 (h t2 k2 j2 i2) else h t2 k2 j2 i2)"
      by (rule arr_is_cong[OF b2]) (use x fresh in auto)
    show "\<exists>s2. for_each (all_edges g cfg bw x) (py_range 0 (Nz g)) s1 = Inr s2 \<and> Q (pre @ [x]) s2"
      using r a3 b3 by (simp add: s1 Q_def)
  qed
  then obtain d' dl' where r: "for_each (\<lambda>t. for_each (all_edges g cfg bw t) (py_range 0 (Nz g)))
           (py_range 0 (num_steps g)) (d, dl) = Inr (d', dl')"
    and a: "arr_is d' T Z Y X (\<lambda>t2 k2 j2 i2. if int t2 \<in> set (py_range 0 (num_steps g))
        then plane_value g cfg bw j2 i2 (f t2 k2 j2 i2) else f t2 k2 j2 i2)"
    and b: "arr_is dl' T Z Y X (\<lambda>t2 k2 j2 i2. if int t2 \<in> set (py_range 0 (num_steps g))
        then plane_rate g cfg bw j2 i2 (h t2 k2 j2 i2) else h t2 k2 j2 i2)"
    by (auto simp: Q_def)
  have a': "arr_is d' T Z Y X (\<lambda>t2 k2 j2 i2. plane_value g cfg bw j2 i2 (f t2 k2 j2 i2))"
    by (rule arr_is_cong[OF a]) (use T in \<open>auto simp: set_py_range\<close>)
  have b': "arr_is dl' T Z Y X (\<lambda>t2 k2 j2 i2. plane_rate g cfg bw j2 i2 (h t2 k2 j2 i2))"
    by (rule arr_is_cong[OF b]) (use T in \<open>auto simp: set_py_range\<close>)
  from r a' b' show ?thesis by blast
qed

lemma boundary_arrays_arr:
  assumes "0 \<le> num_steps g" "0 \<le> Nz g" "0 \<le> Ny g" "0 \<le> Nx g"
  shows "\<exists>d dl. boundary_arrays g cfg bw = Inr (d, dl) \<and>
     arr_is d (nat (num_steps g)) (nat (Nz g)) (nat (Ny g)) (nat (Nx g))
        (\<lambda>t k j i. plane_value g cfg bw j i (- 999)) \<and>
     arr_is dl (nat (num_steps g)) (nat (Nz g)) (nat (Ny g)) (nat (Nx g))
        (\<lambda>t k j i. plane_rate g cfg bw j i 0)"
proof -
  from np_full_arr[OF assms, of "- 999"] obtain d0 where
    d0: "np_full (num_steps g) (Nz g) (Ny g) (Nx g) (- 999) = Inr d0"
    and a0: "arr_is d0 (nat (num_steps g)) (nat (Nz g)) (nat (Ny g)) (nat (Nx g)) (\<lambda>_ _ _ _. - 999)"
    by blast
  from np_full_arr[OF assms, of 0] obtain l0 where
    l0: "np_full (num_steps g) (Nz g) (Ny g) (Nx g) 0 = Inr l0"
    and b0: "arr_is l0 (nat (num_steps g)) (nat (Nz g)) (nat (Ny g)) (nat (Nx g)) (\<lambda>_ _ _ _. 0)"
    by blast
  from time_loop_arr[OF a0 b0, of g cfg bw] assms
  show ?thesis
    by (simp add: boundary_arrays_all_edges d0 l0 bindE_Inr)
qed

section \<open>The generator\<close>

text \<open>The floats of line 42 for \<^verbatim>\<open>time_step_hours = 0.1\<close> and \<^verbatim>\<open>num_steps = 3\<close>: \<^verbatim>\<open>0.1\<close>,
  \<^verbatim>\<open>3 * 0.1\<close>, the stop \<^verbatim>\<open>3 * 0.1 * 3600\<close> (\<open>1080.0000000000002\<close>), the step \<^verbatim>\<open>0.1 * 3600\<close> (\<open>360.0\<close>)
  and their quotient (\<open>3.0000000000000004\<close>).\<close>

lemma b64_tenth: "b64 (1 / 10) = 3602879701896397 / 36028797018963968"
  by (subst b64_normal[of "- 4"]) (simp_all add: pow2_def round_even_def)

lemma three_tenths:
  "b64 (10808639105689191 / 36028797018963968) = 1351079888211149 / 4503599627370496"
  by (subst b64_normal[of "- 2"]) (simp_all add: pow2_def round_even_def)

lemma stop_seconds:
  "b64 (303992974847508525 / 281474976710656) = 4749890231992321 / 4398046511104"
  by (subst b64_normal[of "10"]) (simp_all add: pow2_def round_even_def)

lemma step_seconds: "b64 (810647932926689325 / 2251799813685248) = 360"
  by (subst b64_normal[of "8"]) (simp_all add: pow2_def round_even_def)

lemma stop_by_step:
  "b64 (4749890231992321 / 1583296743997440) = 6755399441055745 / 2251799813685248"
  by (subst b64_normal[of "1"]) (simp_all add: pow2_def round_even_def)

text \<open>
  C9. The claim: for positive extents, positive \<open>num_steps\<close> and a positive step size the
  time offsets have length \<open>num_steps\<close>, start at \<open>0\<close> and are \<open>t * step_seconds\<close> at position
  \<open>t\<close>. The code takes the length from the float quotient of \<^verbatim>\<open>num_steps * time_step_hours *
  3600\<close> by \<^verbatim>\<open>time_step_hours * 3600\<close>, rounded up, and that quotient can exceed \<open>num_steps\<close>:
  three steps of \<open>0.1\<close> hours on a 20 by 10 by 5 grid give four offsets, the last one,
  \<open>1080\<close>, being the stop itself up to rounding. The arrays of the two file procedures have
  \<open>num_steps\<close> time levels all the same.
\<close>

theorem time_offsets_extra_step:
  "init_generator 20 10 5 ''2024-01-01'' (1 / 10) 3 =
     Inr \<lparr>Nx = 20, Ny = 10, Nz = 5, start_date = ''2024-01-01'', time_step_hours = 1 / 10,
          num_steps = 3, times = [0, 360, 720, 1080]\<rparr>"
proof -
  have n: "float_of_int 3 = Inr (Fin 3)"
    by (simp add: float_of_int_def b64_numeral pow2_1024)
  have h: "to_float (1 / 10) = Fin (3602879701896397 / 36028797018963968)"
    by (simp add: to_float_def b64_tenth pow2_1024)
  have stop: "fmul (fmul (Fin 3) (Fin (3602879701896397 / 36028797018963968))) (Fin 3600)
                = Fin (4749890231992321 / 4398046511104)"
    by (simp add: to_float_def three_tenths stop_seconds pow2_1024)
  have step: "fmul (Fin (3602879701896397 / 36028797018963968)) (Fin 3600) = Fin 360"
    by (simp add: to_float_def step_seconds pow2_1024)
  have q: "fdiv (Fin (4749890231992321 / 4398046511104)) (Fin 360)
             = Fin (6755399441055745 / 2251799813685248)"
    by (simp add: to_float_def stop_by_step pow2_1024)
  have len: "\<lceil>6755399441055745 / 2251799813685248 :: real\<rceil> = 4"
    by (simp add: ceiling_eq_iff)
  have "np_arange (Fin (4749890231992321 / 4398046511104)) (Fin 360) = Inr [0, 360, 720, 1080]"
    by (simp add: np_arange_def q len upt_rec b64_zero b64_one b64_numeral del: fdiv.simps)
  then show ?thesis
    by (simp add: init_generator_def bindE_def n h stop step del: fmul.simps)
qed

subsection \<open>Construction checks nothing\<close>

lemma to_float_zero: "to_float 0 = Fin 0"
  by (simp add: to_float_def b64_zero pow2_1024)

lemma float_of_int_zero: "float_of_int 0 = Inr (Fin 0)"
  by (simp add: float_of_int_def b64_zero pow2_1024)

lemma to_float_binary64: "binary64 x \<Longrightarrow> to_float x = Fin x"
  by (auto simp: to_float_def binary64_def Let_def)

lemma b64_nonzero:
  assumes "pow2 (- 1074) \<le> \<bar>x\<bar>"
  shows "b64 x \<noteq> 0"
proof (cases "0 \<le> x")
  case True
  with assms have "pow2 (- 1074) \<le> b64 x" by (intro b64_pos) simp
  with pow2_pos[of "- 1074"] show ?thesis by simp
next
  case False
  with assms have "pow2 (- 1074) \<le> b64 (- x)" by (intro b64_pos) simp
  with pow2_pos[of "- 1074"] show ?thesis by (simp add: b64_minus)
qed

lemma np_arange_empty:
  assumes "step \<noteq> Fin 0" "step \<noteq> NaN"
  shows "np_arange (Fin 0) step = Inr []"
proof (cases step)
  case (Fin s)
  with assms have "s \<noteq> 0" by simp
  then show ?thesis by (simp add: np_arange_def Fin to_float_zero)
qed (use assms in \<open>simp_all add: np_arange_def\<close>)

lemma step_nonzero:
  assumes "binary64 h" "h \<noteq> 0"
  shows "fmul (Fin h) (Fin 3600) \<noteq> Fin 0 \<and> fmul (Fin h) (Fin 3600) \<noteq> NaN"
proof -
  have "pow2 (- 1074) \<le> \<bar>h\<bar>" by (rule binary64_nonzero[OF assms])
  also have "\<bar>h\<bar> \<le> \<bar>h * 3600\<bar>" by (simp add: abs_mult)
  finally have "b64 (h * 3600) \<noteq> 0" by (rule b64_nonzero)
  then show ?thesis by (simp add: to_float_def Let_def)
qed

text \<open>
  C8 (as the code has it). Construction checks nothing. The extents \<open>nx\<close>, \<open>ny\<close>, \<open>nz\<close> and the
  date are stored as given and have no effect on whether construction succeeds or on the
  time offsets: the result is the one for extents \<open>0\<close> and an empty date with the four
  fields replaced. With \<open>num_steps = 0\<close> and any non-zero finite float \<open>time_step_hours\<close>,
  negative ones included, a generator is returned, with no time offsets. With
  \<open>time_step_hours = 0\<close> construction fails, with the ZeroDivisionError of \<^verbatim>\<open>np.arange\<close>
  unless the conversion of \<open>num_steps\<close> to a float has raised before.
\<close>

theorem construction_unchecked:
  "init_generator nx ny nz sd hours steps =
     map_sum id (\<lambda>g. g\<lparr>Nx := nx, Ny := ny, Nz := nz, start_date := sd\<rparr>)
       (init_generator 0 0 0 [] hours steps) \<and>
   (steps = 0 \<and> binary64 hours \<and> hours \<noteq> 0 \<longrightarrow>
      init_generator nx ny nz sd hours steps =
        Inr \<lparr>Nx = nx, Ny = ny, Nz = nz, start_date = sd, time_step_hours = hours,
             num_steps = 0, times = []\<rparr>) \<and>
   (hours = 0 \<longrightarrow>
      init_generator nx ny nz sd hours steps =
        bindE (float_of_int steps) (\<lambda>n. Inl ZeroDivisionError))"
proof (intro conjI impI)
  show "init_generator nx ny nz sd hours steps =
     map_sum id (\<lambda>g. g\<lparr>Nx := nx, Ny := ny, Nz := nz, start_date := sd\<rparr>)
       (init_generator 0 0 0 [] hours steps)"
    by (simp add: init_generator_def bindE_def Let_def split: sum.splits)
next
  assume a: "steps = 0 \<and> binary64 hours \<and> hours \<noteq> 0"
  then have h: "to_float hours = Fin hours" by (simp add: to_float_binary64)
  have stop: "fmul (fmul (Fin 0) (Fin hours)) (Fin 3600) = Fin 0" by (simp add: to_float_zero)
  from a step_nonzero[of hours]
  have "np_arange (Fin 0) (fmul (Fin hours) (Fin 3600)) = Inr []"
    by (intro np_arange_empty) simp_all
  with a show "init_generator nx ny nz sd hours steps =
        Inr \<lparr>Nx = nx, Ny = ny, Nz = nz, start_date = sd, time_step_hours = hours,
             num_steps = 0, times = []\<rparr>"
    by (simp add: init_generator_def bindE_def float_of_int_zero h stop del: fmul.simps)
next
  assume "hours = 0"
  then show "init_generator nx ny nz sd hours steps =
        bindE (float_of_int steps) (\<lambda>n. Inl ZeroDivisionError)"
    by (simp add: init_generator_def bindE_def np_arange_def to_float_zero split: sum.splits)
qed

text \<open>No time step and a step of \<open>-2\<close> hours with a negative \<open>ny\<close>; one time step of \<open>0\<close>
  hours.\<close>

theorem construction_unchecked_witness:
  "binary64 (- 2) \<and>
   init_generator 0 (- 1) 0 ''x'' (- 2) 0 =
      Inr \<lparr>Nx = 0, Ny = - 1, Nz = 0, start_date = ''x'', time_step_hours = - 2,
           num_steps = 0, times = []\<rparr> \<and>
   init_generator 1 1 1 ''x'' 0 1 = Inl ZeroDivisionError"
proof -
  have b: "binary64 (- 2)"
    by (simp add: binary64_def b64_minus b64_numeral pow2_1024)
  have f: "float_of_int 1 = Inr (Fin 1)"
    by (simp add: float_of_int_def b64_one pow2_1024)
  from b f construction_unchecked[of 0 "- 1" 0 "''x''" "- 2" 0, THEN conjunct2]
       construction_unchecked[of 1 1 1 "''x''" 0 1, THEN conjunct2]
  show ?thesis by (simp add: bindE_def)
qed

text \<open>A negative \<open>nx\<close>, zero \<open>ny\<close>, \<open>nz\<close> and \<open>num_steps\<close> and a negative step size together:
  a generator is returned, with no time offsets.\<close>

theorem construction_unchecked_counterexample:
  "init_generator (- 5) 0 0 ''2024-01-01'' (- 1) 0 =
     Inr \<lparr>Nx = - 5, Ny = 0, Nz = 0, start_date = ''2024-01-01'', time_step_hours = - 1,
          num_steps = 0, times = []\<rparr>"
  by (simp add: init_generator_def np_arange_def float_of_int_def to_float_def bindE_def
      b64_zero b64_minus b64_one b64_numeral pow2_1024)

section \<open>Boundary arrays\<close>

lemma boundary_cells:
  assumes "t < nat (num_steps g)" "k < nat (Nz g)" "j < nat (Ny g)" "i < nat (Nx g)"
  shows "\<exists>d dl. boundary_arrays g cfg bw = Inr (d, dl) \<and>
           cell d t k j i = plane_value g cfg bw j i (- 999) \<and>
           cell dl t k j i = plane_rate g cfg bw j i 0"
proof -
  have dims: "0 \<le> num_steps g" "0 \<le> Nz g" "0 \<le> Ny g" "0 \<le> Nx g"
    using assms by auto
  from boundary_arrays_arr[OF dims, of cfg bw] obtain d dl where
    r: "boundary_arrays g cfg bw = Inr (d, dl)"
    and a: "arr_is d (nat (num_steps g)) (nat (Nz g)) (nat (Ny g)) (nat (Nx g))
              (\<lambda>t k j i. plane_value g cfg bw j i (- 999))"
    and b: "arr_is dl (nat (num_steps g)) (nat (Nz g)) (nat (Ny g)) (nat (Nx g))
              (\<lambda>t k j i. plane_rate g cfg bw j i 0)"
    by blast
  from arr_is_cell[OF a assms] arr_is_cell[OF b assms] r show ?thesis by simp
qed

lemma fold_last_write:
  "fold (\<lambda>e old. if P e then v e else old) es old =
     (if filter P es = [] then old else v (last (filter P es)))"
  by (induction es arbitrary: old) auto

lemma fold_filter_max:
  "fold (\<lambda>e r. if P e then max r (f e) else r) es (old :: real) =
     fold (\<lambda>e r. max r (f e)) (filter P es) old"
  by (induction es arbitrary: old) auto

lemma plane_value_covering:
  "plane_value g cfg bw j i old =
     (if covering g cfg bw j i = [] then old else edge_value cfg (last (covering g cfg bw j i)))"
proof -
  have "plane_value g cfg bw j i old =
          fold (\<lambda>e old. if edge_is_set cfg e \<and> in_buffer g bw e j i then edge_value cfg e else old)
            [West, East, South, North] old"
    unfolding plane_value_def step_value_def by (simp only: fold.simps o_apply id_apply)
  then show ?thesis
    unfolding covering_def by (simp only: fold_last_write)
qed

lemma plane_rate_covering:
  "plane_rate g cfg bw j i old =
     fold (\<lambda>e r. max r (edge_rate g cfg bw e j i)) (covering g cfg bw j i) old"
proof -
  have "plane_rate g cfg bw j i old =
          fold (\<lambda>e r. if edge_is_set cfg e \<and> in_buffer g bw e j i
                       then max r (edge_rate g cfg bw e j i) else r)
            [West, East, South, North] old"
    unfolding plane_rate_def step_rate_def by (simp only: fold.simps o_apply id_apply)
  then show ?thesis
    unfolding covering_def by (simp only: fold_filter_max)
qed

lemma fold_max_Max:
  "fold (\<lambda>e r. max r (f e)) xs (old :: real) = Max (insert old (f ` set xs))"
proof (induction xs arbitrary: old)
  case Nil
  show ?case by simp
next
  case (Cons x xs)
  have "Max (insert (max old (f x)) (f ` set xs)) = Max (insert old (insert (f x) (f ` set xs)))"
    by (cases "xs = []") (simp_all add: max.assoc)
  with Cons show ?case by simp
qed

lemma covering_set:
  "e \<in> set (covering g cfg bw j i) \<longleftrightarrow> edge_is_set cfg e \<and> in_buffer g bw e j i"
  by (cases e) (auto simp: covering_def)

lemma weight_unit:
  assumes "0 \<le> n" "n < bw"
  shows "0 \<le> b64 (1 - b64 (real_of_int n / real_of_int bw)) \<and>
         b64 (1 - b64 (real_of_int n / real_of_int bw)) \<le> 1"
proof -
  let ?q = "real_of_int n / real_of_int bw"
  from assms have "0 \<le> ?q" "?q \<le> 1" by simp_all
  then have "0 \<le> b64 ?q" "b64 ?q \<le> 1" by (simp_all add: b64_nonneg b64_le_one)
  then show ?thesis by (simp add: b64_nonneg b64_le_one)
qed


lemma in_buffer_numerator:
  assumes "in_buffer g bw e j i"
  obtains n where "0 \<le> n" "n < bw" "n < max (Nx g) (Ny g)"
    "taper_weight g bw e j i = b64 (1 - b64 (real_of_int n / real_of_int bw))"
proof (cases e)
  case West
  with assms that[of "int i"] show ?thesis by auto
next
  case East
  with assms that[of "Nx g - 1 - int i"] show ?thesis by auto
next
  case South
  with assms that[of "int j"] show ?thesis by auto
next
  case North
  with assms that[of "Ny g - 1 - int j"] show ?thesis by auto
qed

lemma taper_weight_nonneg: "in_buffer g bw e j i \<Longrightarrow> 0 \<le> taper_weight g bw e j i"
  by (erule in_buffer_numerator) (simp add: weight_unit)

lemma taper_weight_le_1: "in_buffer g bw e j i \<Longrightarrow> taper_weight g bw e j i \<le> 1"
  by (erule in_buffer_numerator) (simp add: weight_unit)


lemma lambda_scale_float: "b64 (lambda_scale cfg) = lambda_scale cfg"
  by (simp add: lambda_scale_def b64_idem)

lemma edge_rate_nonneg:
  "0 \<le> lambda_scale cfg \<Longrightarrow> in_buffer g bw e j i \<Longrightarrow> 0 \<le> edge_rate g cfg bw e j i"
  by (simp add: edge_rate_def b64_nonneg taper_weight_nonneg)

lemma edge_rate_le:
  assumes "0 \<le> lambda_scale cfg" "in_buffer g bw e j i"
  shows "edge_rate g cfg bw e j i \<le> lambda_scale cfg"
proof -
  have "lambda_scale cfg * taper_weight g bw e j i \<le> lambda_scale cfg * 1"
    using assms taper_weight_le_1[of g bw e j i] by (intro mult_left_mono) auto
  then have "b64 (lambda_scale cfg * taper_weight g bw e j i) \<le> b64 (lambda_scale cfg)"
    using b64_mono by simp
  then show ?thesis by (simp add: edge_rate_def lambda_scale_float)
qed

lemma edge_rate_wall:
  "edge_rate g cfg bw West j 0 = lambda_scale cfg"
  "edge_rate g cfg bw South 0 i = lambda_scale cfg"
  by (simp_all add: edge_rate_def b64_zero b64_one lambda_scale_float)


lemma plane_rate_Max:
  assumes "0 \<le> lambda_scale cfg" "covering g cfg bw j i \<noteq> []"
  shows "plane_rate g cfg bw j i 0 =
           Max ((\<lambda>e. edge_rate g cfg bw e j i) ` set (covering g cfg bw j i))"
proof -
  let ?S = "(\<lambda>e. edge_rate g cfg bw e j i) ` set (covering g cfg bw j i)"
  from assms(2) obtain e where e: "e \<in> set (covering g cfg bw j i)"
    by (cases "covering g cfg bw j i") auto
  then have "0 \<le> edge_rate g cfg bw e j i"
    using assms(1) by (simp add: covering_set edge_rate_nonneg)
  moreover have "edge_rate g cfg bw e j i \<le> Max ?S" using e by simp
  ultimately have "0 \<le> Max ?S" by linarith
  moreover have "?S \<noteq> {}" using e by auto
  ultimately have "Max (insert 0 ?S) = Max ?S" by (simp add: max_def)
  then show ?thesis by (simp add: plane_rate_covering fold_max_Max)
qed

subsection \<open>The claims on the boundary arrays\<close>

text \<open>The floats of the examples: \<^verbatim>\<open>0.5\<close>, the default \<^verbatim>\<open>1e-4\<close> and its half, the quotients
  \<^verbatim>\<open>i / 5\<close>, the weights \<^verbatim>\<open>1.0 - i / 5\<close> and the rates \<^verbatim>\<open>1e-4 * weight\<close> of a buffer of width
  5, the literal \<^verbatim>\<open>2e-5\<close>, and the smallest positive float \<open>2^-1074\<close> (\<^verbatim>\<open>5e-324\<close>), whose half
  rounds to zero.\<close>

lemma b64_half: "b64 (1 / 2) = 1 / 2"
  by (subst b64_normal[of "- 1"]) (simp_all add: pow2_def round_even_def)

lemma lambda_default: "b64 (1 / 10000) = 7378697629483821 / 73786976294838206464"
  by (subst b64_normal[of "- 14"]) (simp_all add: pow2_def round_even_def)

lemma lambda_default_float: "b64 (7378697629483821 / 73786976294838206464) = 7378697629483821 / 73786976294838206464"
  by (subst b64_normal[of "- 14"]) (simp_all add: pow2_def round_even_def)

lemma lambda_default_half: "b64 (7378697629483821 / 147573952589676412928) = 7378697629483821 / 147573952589676412928"
  by (subst b64_normal[of "- 15"]) (simp_all add: pow2_def round_even_def)

lemma fifths_1: "b64 (1 / 5) = 3602879701896397 / 18014398509481984"
  by (subst b64_normal[of "- 3"]) (simp_all add: pow2_def round_even_def)

lemma weight_1: "b64 (14411518807585587 / 18014398509481984) = 3602879701896397 / 4503599627370496"
  by (subst b64_normal[of "- 1"]) (simp_all add: pow2_def round_even_def)

lemma rate_1: "b64 (26584559915698320207793929692937 / 332306998946228968225951765070086144) = 5902958103587057 / 73786976294838206464"
  by (subst b64_normal[of "- 14"]) (simp_all add: pow2_def round_even_def)

lemma fifths_2: "b64 (2 / 5) = 3602879701896397 / 9007199254740992"
  by (subst b64_normal[of "- 2"]) (simp_all add: pow2_def round_even_def)

lemma weight_2: "b64 (5404319552844595 / 9007199254740992) = 5404319552844595 / 9007199254740992"
  by (subst b64_normal[of "- 1"]) (simp_all add: pow2_def round_even_def)

lemma rate_2: "b64 (39876839873547476622342079797495 / 664613997892457936451903530140172288) = 8854437155380585 / 147573952589676412928"
  by (subst b64_normal[of "- 15"]) (simp_all add: pow2_def round_even_def)

lemma fifths_3: "b64 (3 / 5) = 5404319552844595 / 9007199254740992"
  by (subst b64_normal[of "- 1"]) (simp_all add: pow2_def round_even_def)

lemma weight_3: "b64 (3602879701896397 / 9007199254740992) = 3602879701896397 / 9007199254740992"
  by (subst b64_normal[of "- 2"]) (simp_all add: pow2_def round_even_def)

lemma rate_3: "b64 (26584559915698320207793929692937 / 664613997892457936451903530140172288) = 5902958103587057 / 147573952589676412928"
  by (subst b64_normal[of "- 15"]) (simp_all add: pow2_def round_even_def)

lemma fifths_4: "b64 (4 / 5) = 3602879701896397 / 4503599627370496"
  by (subst b64_normal[of "- 1"]) (simp_all add: pow2_def round_even_def)

lemma weight_4: "b64 (900719925474099 / 4503599627370496) = 900719925474099 / 4503599627370496"
  by (subst b64_normal[of "- 3"]) (simp_all add: pow2_def round_even_def)

lemma rate_4: "b64 (6646139978924578207274075052279 / 332306998946228968225951765070086144) = 5902958103587055 / 295147905179352825856"
  by (subst b64_normal[of "- 16"]) (simp_all add: pow2_def round_even_def)

lemma two_hundred_thousandths: "b64 (1 / 50000) = 5902958103587057 / 295147905179352825856"
  by (subst b64_normal[of "- 16"]) (simp_all add: pow2_def round_even_def)

lemma smallest_float: "b64 (pow2 (- 1074)) = pow2 (- 1074)"
  by (simp add: b64_pow2)

lemma smallest_float_half: "b64 (pow2 (- 1074) / 2) = 0"
  by (subst b64_subnormal) (simp_all add: pow2_def round_even_def)


lemmas float_eval =
  b64_zero b64_one b64_half lambda_default lambda_default_float lambda_default_half
  fifths_1 fifths_2 fifths_3 fifths_4 weight_1 weight_2 weight_3 weight_4
  rate_1 rate_2 rate_3 rate_4 two_hundred_thousandths
  smallest_float smallest_float_half pow2_1024

text \<open>Unfolding rules for evaluating the builders on a concrete grid.\<close>

lemmas boundary_eval =
  boundary_arrays_def np_full_def bindE_def py_range_def dict_get_def Let_def
  west_boundary_def east_boundary_def south_boundary_def north_boundary_def
  py_truediv_def assign_col_def maximum_col_def update_col_def
  assign_row_def maximum_row_def update_row_def norm_index_def
  upto_rec1 numeral_2_eq_2 numeral_3_eq_3

lemmas edge_eval =
  edge_is_set_def edge_value_def lambda_scale_def edge_rate_def covering_def cell_def





text \<open>
  C2. With \<open>lambda\<close> not negative, at every cell that lies in the buffer zone of at least one
  set edge (so also of two or more) the relaxation rate is the maximum, over the set edges
  whose buffer contains the cell, of \<open>lambda\<close> times that edge's taper weight there. In
  particular at the corner \<open>[t, k, 0, 0]\<close>, when west and south are both set and both
  buffers contain it, the rate is the larger of the west and south rates, and for a positive
  \<open>lambda\<close> it is not their sum.
\<close>

theorem relax_is_max_over_edges:
  assumes "0 \<le> lambda_scale cfg"
    and "t < nat (num_steps g)" "k < nat (Nz g)" "j < nat (Ny g)" "i < nat (Nx g)"
  shows "\<exists>d dl. boundary_arrays g cfg bw = Inr (d, dl) \<and>
     (covering g cfg bw j i \<noteq> [] \<longrightarrow>
        cell dl t k j i = Max ((\<lambda>e. edge_rate g cfg bw e j i) ` set (covering g cfg bw j i))) \<and>
     (edge_is_set cfg West \<and> edge_is_set cfg South \<and>
      in_buffer g bw West 0 0 \<and> in_buffer g bw South 0 0 \<longrightarrow>
        cell dl t k 0 0 = max (edge_rate g cfg bw West 0 0) (edge_rate g cfg bw South 0 0) \<and>
        (0 < lambda_scale cfg \<longrightarrow>
           cell dl t k 0 0 \<noteq> edge_rate g cfg bw West 0 0 + edge_rate g cfg bw South 0 0))"
proof -
  from boundary_cells[OF assms(2-5), of cfg bw] obtain d dl where
    r: "boundary_arrays g cfg bw = Inr (d, dl)"
    and l: "cell dl t k j i = plane_rate g cfg bw j i 0"
    by blast
  have zero: "0 < nat (Ny g)" "0 < nat (Nx g)" using assms by auto
  from boundary_cells[OF assms(2,3) zero, of cfg bw] r
  have l0: "cell dl t k 0 0 = plane_rate g cfg bw 0 0 0" by simp
  have general: "cell dl t k j i = Max ((\<lambda>e. edge_rate g cfg bw e j i) ` set (covering g cfg bw j i))"
    if "covering g cfg bw j i \<noteq> []"
    using plane_rate_Max[OF assms(1) that] l by simp
  have corner: "cell dl t k 0 0 = max (edge_rate g cfg bw West 0 0) (edge_rate g cfg bw South 0 0) \<and>
        (0 < lambda_scale cfg \<longrightarrow>
           cell dl t k 0 0 \<noteq> edge_rate g cfg bw West 0 0 + edge_rate g cfg bw South 0 0)"
    if c: "edge_is_set cfg West \<and> edge_is_set cfg South \<and>
      in_buffer g bw West 0 0 \<and> in_buffer g bw South 0 0"
  proof -
    let ?S = "(\<lambda>e. edge_rate g cfg bw e 0 0) ` set (covering g cfg bw 0 0)"
    from c have bw: "0 < bw" by simp
    have w: "edge_rate g cfg bw West 0 0 = lambda_scale cfg"
      and s: "edge_rate g cfg bw South 0 0 = lambda_scale cfg"
      by (simp_all add: edge_rate_wall)
    have mem: "West \<in> set (covering g cfg bw 0 0)" using c by (simp add: covering_set)
    then have ne: "covering g cfg bw 0 0 \<noteq> []" by auto
    have le: "x \<le> lambda_scale cfg" if "x \<in> ?S" for x
    proof -
      from that obtain e where e: "e \<in> set (covering g cfg bw 0 0)"
        and x: "x = edge_rate g cfg bw e 0 0" by auto
      from e have "in_buffer g bw e 0 0" by (simp add: covering_set)
      with assms(1) show ?thesis unfolding x by (rule edge_rate_le)
    qed
    have "lambda_scale cfg \<in> ?S" using mem w by force
    then have "Max ?S = lambda_scale cfg"
      using le by (intro Max_eqI) auto
    then have "cell dl t k 0 0 = lambda_scale cfg"
      using plane_rate_Max[OF assms(1) ne] l0 by simp
    then show ?thesis by (simp add: w s)
  qed
  from r general corner show ?thesis by blast
qed

theorem relax_is_max_over_edges_witness:
  "0 \<le> lambda_scale [''west'' \<mapsto> 10, ''south'' \<mapsto> 8] \<and>
   covering \<lparr>Nx = 2, Ny = 2, Nz = 1, start_date = '''', time_step_hours = 1,
        num_steps = 1, times = [0]\<rparr> [''west'' \<mapsto> 10, ''south'' \<mapsto> 8] 2 1 0 = [West, South] \<and>
   edge_rate \<lparr>Nx = 2, Ny = 2, Nz = 1, start_date = '''', time_step_hours = 1,
        num_steps = 1, times = [0]\<rparr> [''west'' \<mapsto> 10, ''south'' \<mapsto> 8] 2 West 1 0 = b64 (1 / 10000) \<and>
   edge_rate \<lparr>Nx = 2, Ny = 2, Nz = 1, start_date = '''', time_step_hours = 1,
        num_steps = 1, times = [0]\<rparr> [''west'' \<mapsto> 10, ''south'' \<mapsto> 8] 2 South 1 0 = b64 (1 / 10000) / 2 \<and>
   (\<exists>d dl. boundary_arrays \<lparr>Nx = 2, Ny = 2, Nz = 1, start_date = '''', time_step_hours = 1,
        num_steps = 1, times = [0]\<rparr> [''west'' \<mapsto> 10, ''south'' \<mapsto> 8] 2 = Inr (d, dl) \<and>
      cell dl 0 0 1 0 = b64 (1 / 10000) \<and> cell dl 0 0 0 0 = b64 (1 / 10000))"
  using relax_is_max_over_edges[of "[''west'' \<mapsto> 10, ''south'' \<mapsto> 8]" 0
      "\<lparr>Nx = 2, Ny = 2, Nz = 1, start_date = '''', time_step_hours = 1,
        num_steps = 1, times = [0]\<rparr>" 0 1 0 2]
  by (simp add: boundary_eval edge_eval float_eval)

text \<open>
  C3. At every cell that lies in the buffer zone of at least one set edge (so also of two
  or more) the value is the boundary value of the last edge, in the order west, east, south,
  north, that is set and whose buffer contains the cell.
\<close>

theorem value_is_last_edge:
  assumes "t < nat (num_steps g)" "k < nat (Nz g)" "j < nat (Ny g)" "i < nat (Nx g)"
    and "covering g cfg bw j i \<noteq> []"
  shows "\<exists>d dl. boundary_arrays g cfg bw = Inr (d, dl) \<and>
           cell d t k j i = edge_value cfg (last (covering g cfg bw j i))"
proof -
  from boundary_cells[OF assms(1-4), of cfg bw] obtain d dl where
    r: "boundary_arrays g cfg bw = Inr (d, dl)"
    and v: "cell d t k j i = plane_value g cfg bw j i (- 999)"
    by blast
  from r v assms(5) show ?thesis by (simp add: plane_value_covering)
qed

theorem value_is_last_edge_witness:
  "covering \<lparr>Nx = 2, Ny = 2, Nz = 1, start_date = '''', time_step_hours = 1,
        num_steps = 1, times = [0]\<rparr> [''west'' \<mapsto> 10, ''south'' \<mapsto> 8] 1 0 0 = [West, South] \<and>
   (\<exists>d dl. boundary_arrays \<lparr>Nx = 2, Ny = 2, Nz = 1, start_date = '''', time_step_hours = 1,
        num_steps = 1, times = [0]\<rparr> [''west'' \<mapsto> 10, ''south'' \<mapsto> 8] 1 = Inr (d, dl) \<and>
      cell d 0 0 0 0 = 8 \<and> cell d 0 0 1 0 = 10 \<and> cell d 0 0 0 1 = 8 \<and> cell d 0 0 1 1 = - 999)"
  using value_is_last_edge[of 0
      "\<lparr>Nx = 2, Ny = 2, Nz = 1, start_date = '''', time_step_hours = 1,
        num_steps = 1, times = [0]\<rparr>" 0 0 0 "[''west'' \<mapsto> 10, ''south'' \<mapsto> 8]" 1]
  by (simp add: boundary_eval edge_eval float_eval)

text \<open>
  C4 (as the code has it). Only west set (\<open>west = 10\<close>, \<open>lambda = 1e-4\<close>), \<open>buffer_width = 5\<close>,
  \<open>nx = 20\<close>: for every time step, depth and row the relaxation rate is the float \<open>1e-4\<close> in
  column \<open>0\<close> and \<open>0\<close> in column \<open>10\<close>. In column \<open>4\<close> it is the float product
  \<^verbatim>\<open>1e-4 * (1.0 - 4 / 5)\<close>, which is \<open>5902958103587055 / 2^68\<close> (\<open>1.9999999999999995e-05\<close>),
  while the float \<open>2e-5\<close> is \<open>5902958103587057 / 2^68\<close>.
\<close>

theorem west_only_taper:
  assumes "Nx g = 20"
    and "t < nat (num_steps g)" "k < nat (Nz g)" "j < nat (Ny g)"
  shows "\<exists>d dl. boundary_arrays g [''west'' \<mapsto> 10, ''lambda'' \<mapsto> 1 / 10000] 5 = Inr (d, dl) \<and>
           cell dl t k j 0 = b64 (1 / 10000) \<and>
           cell dl t k j 4 = 5902958103587055 / 2 ^ 68 \<and>
           b64 (2 / 100000) = 5902958103587057 / 2 ^ 68 \<and>
           cell dl t k j 10 = 0"
proof -
  let ?cfg = "[''west'' \<mapsto> 10, ''lambda'' \<mapsto> 1 / 10000 :: real]"
  have i0: "0 < nat (Nx g)" and i4: "4 < nat (Nx g)" and i10: "10 < nat (Nx g)"
    using assms(1) by simp_all
  from boundary_cells[OF assms(2-4) i0, of ?cfg 5] obtain d dl where
    r: "boundary_arrays g ?cfg 5 = Inr (d, dl)"
    and l0: "cell dl t k j 0 = plane_rate g ?cfg 5 j 0 0"
    by blast
  from boundary_cells[OF assms(2-4) i4, of ?cfg 5] r
  have l4: "cell dl t k j 4 = plane_rate g ?cfg 5 j 4 0" by simp
  from boundary_cells[OF assms(2-4) i10, of ?cfg 5] r
  have l10: "cell dl t k j 10 = plane_rate g ?cfg 5 j 10 0" by simp
  have set: "edge_is_set ?cfg West" "\<not> edge_is_set ?cfg East"
    "\<not> edge_is_set ?cfg South" "\<not> edge_is_set ?cfg North"
    and lam: "lambda_scale ?cfg = 7378697629483821 / 73786976294838206464"
    by (simp_all add: edge_is_set_def edge_value_def lambda_scale_def dict_get_def lambda_default)
  have "plane_rate g ?cfg 5 j 0 0 = b64 (1 / 10000)"
    "plane_rate g ?cfg 5 j 4 0 = 5902958103587055 / 2 ^ 68"
    "plane_rate g ?cfg 5 j 10 0 = 0"
    using assms(1) by (simp_all add: plane_rate_def step_rate_def set lam edge_rate_def float_eval)
  moreover have "b64 (2 / 100000) = 5902958103587057 / 2 ^ 68"
    by (simp add: float_eval)
  ultimately show ?thesis using r l0 l4 l10 by simp
qed

text \<open>One time step, one depth, one row: the two arrays in full.\<close>

lemma west_only_arrays:
  "boundary_arrays \<lparr>Nx = 20, Ny = 1, Nz = 1, start_date = '''', time_step_hours = 1,
        num_steps = 1, times = [0]\<rparr> [''west'' \<mapsto> 10, ''lambda'' \<mapsto> 1 / 10000] 5 =
     Inr (\<lparr>n_t = 1, n_z = 1, n_y = 1, n_x = 20,
           cells = [[[[10, 10, 10, 10, 10, - 999, - 999, - 999, - 999, - 999,
                       - 999, - 999, - 999, - 999, - 999, - 999, - 999, - 999, - 999, - 999]]]]\<rparr>,
          \<lparr>n_t = 1, n_z = 1, n_y = 1, n_x = 20,
           cells = [[[[7378697629483821 / 73786976294838206464,
                       5902958103587057 / 73786976294838206464,
                       8854437155380585 / 147573952589676412928,
                       5902958103587057 / 147573952589676412928,
                       5902958103587055 / 295147905179352825856,
                       0, 0, 0, 0, 0, 0, 0, 0, 0, 0, 0, 0, 0, 0, 0]]]]\<rparr>)"
  by (simp add: boundary_eval float_eval eval_nat_numeral)

theorem west_only_taper_witness:
  "\<exists>d dl. boundary_arrays \<lparr>Nx = 20, Ny = 1, Nz = 1, start_date = '''', time_step_hours = 1,
        num_steps = 1, times = [0]\<rparr> [''west'' \<mapsto> 10, ''lambda'' \<mapsto> 1 / 10000] 5 = Inr (d, dl) \<and>
      cell dl 0 0 0 0 = b64 (1 / 10000) \<and> cell dl 0 0 0 4 = 5902958103587055 / 2 ^ 68 \<and>
      cell dl 0 0 0 10 = 0 \<and> cell d 0 0 0 4 = 10 \<and> cell d 0 0 0 5 = - 999"
  using west_only_taper[of "\<lparr>Nx = 20, Ny = 1, Nz = 1, start_date = '''', time_step_hours = 1,
        num_steps = 1, times = [0]\<rparr>" 0 0 0]
  by (simp add: west_only_arrays cell_def float_eval)

text \<open>On that grid the rate stored in column \<open>4\<close> is not the float \<open>2e-5\<close>.\<close>

theorem west_only_taper_counterexample:
  "boundary_arrays \<lparr>Nx = 20, Ny = 1, Nz = 1, start_date = '''', time_step_hours = 1,
        num_steps = 1, times = [0]\<rparr> [''west'' \<mapsto> 10, ''lambda'' \<mapsto> 1 / 10000] 5 =
     Inr (\<lparr>n_t = 1, n_z = 1, n_y = 1, n_x = 20,
           cells = [[[[10, 10, 10, 10, 10, - 999, - 999, - 999, - 999, - 999,
                       - 999, - 999, - 999, - 999, - 999, - 999, - 999, - 999, - 999, - 999]]]]\<rparr>,
          \<lparr>n_t = 1, n_z = 1, n_y = 1, n_x = 20,
           cells = [[[[7378697629483821 / 73786976294838206464,
                       5902958103587057 / 73786976294838206464,
                       8854437155380585 / 147573952589676412928,
                       5902958103587057 / 147573952589676412928,
                       5902958103587055 / 295147905179352825856,
                       0, 0, 0, 0, 0, 0, 0, 0, 0, 0, 0, 0, 0, 0, 0]]]]\<rparr>) \<and>
   5902958103587055 / 295147905179352825856 \<noteq> b64 (2 / 100000)"
  by (simp add: west_only_arrays float_eval)

subsection \<open>A buffer width of zero or less\<close>

lemma for_each_skip: "(\<And>x s. body x s = Inr s) \<Longrightarrow> for_each body xs s = Inr s"
  by (induction xs arbitrary: s) (simp_all add: bindE_def)

lemma py_range_empty: "hi \<le> lo \<Longrightarrow> py_range lo hi = []"
  by (simp add: py_range_def)

lemma all_edges_skip:
  assumes "bw \<le> 0"
  shows "all_edges g cfg bw t k st = Inr st"
proof -
  have w: "py_range 0 (min bw (Nx g)) = []" and s: "py_range 0 (min bw (Ny g)) = []"
    and e: "py_range (max 0 (Nx g - bw)) (Nx g) = []"
    and n: "py_range (max 0 (Ny g - bw)) (Ny g) = []"
    using assms by (simp_all add: py_range_empty)
  show ?thesis
    by (simp add: all_edges_def west_boundary_def east_boundary_def south_boundary_def
        north_boundary_def w e s n bindE_def)
qed

text \<open>
  C7 (as the code has it). A \<open>buffer_width\<close> of zero or less is not rejected: all four index
  ranges are empty, so both arrays are built and returned with their fill values in every
  cell, \<open>-999\<close> for the value and \<open>0\<close> for the relaxation rate.
\<close>

theorem nonpositive_buffer_leaves_fill:
  assumes "bw \<le> 0"
    and "0 \<le> num_steps g" "0 \<le> Nz g" "0 \<le> Ny g" "0 \<le> Nx g"
  shows "boundary_arrays g cfg bw =
     Inr (\<lparr>n_t = nat (num_steps g), n_z = nat (Nz g), n_y = nat (Ny g), n_x = nat (Nx g),
           cells = replicate (nat (num_steps g)) (replicate (nat (Nz g))
                     (replicate (nat (Ny g)) (replicate (nat (Nx g)) (- 999))))\<rparr>,
          \<lparr>n_t = nat (num_steps g), n_z = nat (Nz g), n_y = nat (Ny g), n_x = nat (Nx g),
           cells = replicate (nat (num_steps g)) (replicate (nat (Nz g))
                     (replicate (nat (Ny g)) (replicate (nat (Nx g)) 0)))\<rparr>)"
proof -
  have inner: "for_each (all_edges g cfg bw t) (py_range 0 (Nz g)) st = Inr st" for t st
    by (rule for_each_skip) (rule all_edges_skip[OF assms(1)])
  have "for_each (\<lambda>t. for_each (all_edges g cfg bw t) (py_range 0 (Nz g)))
          (py_range 0 (num_steps g)) st = Inr st" for st
    by (rule for_each_skip) (rule inner)
  then show ?thesis
    using assms(2-5) by (simp add: boundary_arrays_all_edges np_full_def bindE_def)
qed

theorem nonpositive_buffer_leaves_fill_witness:
  "boundary_arrays \<lparr>Nx = 2, Ny = 1, Nz = 1, start_date = '''', time_step_hours = 1,
        num_steps = 1, times = [0]\<rparr> [''west'' \<mapsto> 10, ''east'' \<mapsto> 12] (- 3) =
     Inr (\<lparr>n_t = 1, n_z = 1, n_y = 1, n_x = 2, cells = [[[[- 999, - 999]]]]\<rparr>,
          \<lparr>n_t = 1, n_z = 1, n_y = 1, n_x = 2, cells = [[[[0, 0]]]]\<rparr>)"
  using nonpositive_buffer_leaves_fill[of "- 3"
      "\<lparr>Nx = 2, Ny = 1, Nz = 1, start_date = '''', time_step_hours = 1,
        num_steps = 1, times = [0]\<rparr>" "[''west'' \<mapsto> 10, ''east'' \<mapsto> 12]"]
  by (simp add: numeral_2_eq_2)

text \<open>The whole call with \<open>buffer_width = 0\<close> and one tracer: both arrays are built and
  written; what is raised afterwards is the ValueError of \<^verbatim>\<open>np.min\<close> on an empty selection in
  the statistics.\<close>

theorem zero_buffer_counterexample:
  "create_boundary_file \<lparr>Nx = 2, Ny = 1, Nz = 1, start_date = '''', time_step_hours = 1,
        num_steps = 1, times = [0]\<rparr> ''b.nc'' [(''T'', [''west'' \<mapsto> 10])] 0 =
     Inl (ValueError,
          [CreateDataset ''b.nc'',
           CreateDimension ''Nx'' (Some 2), CreateDimension ''Ny'' (Some 1),
           CreateDimension ''Nz'' (Some 1), CreateDimension ''time'' None,
           CreateVariable ''time'', WriteVariable ''time'' (Series [0]),
           CreateVariable ''T'', CreateVariable ''T_lambda'',
           WriteVariable ''T''
             (Grid \<lparr>n_t = 1, n_z = 1, n_y = 1, n_x = 2, cells = [[[[- 999, - 999]]]]\<rparr>),
           WriteVariable ''T_lambda''
             (Grid \<lparr>n_t = 1, n_z = 1, n_y = 1, n_x = 2, cells = [[[[0, 0]]]]\<rparr>)])"
  by (simp add: create_boundary_file_def open_dataset_def boundary_statistics_def flat_def
      np_min_def np_max_def boundary_eval)

section \<open>River arrays\<close>

lemma norm_index_ok:
  "index_ok (int n) c \<Longrightarrow> norm_index n c = Inr (wrap_index (int n) c) \<and> wrap_index (int n) c < n"
  by (auto simp: index_ok_def norm_index_def wrap_index_def)

lemma norm_index_bad: "\<not> index_ok (int n) c \<Longrightarrow> norm_index n c = Inl IndexError"
  by (auto simp: index_ok_def norm_index_def)

lemma assign_site_arr:
  assumes "arr_is a T Z Y X f"
    and "index_ok (int Z) k" "index_ok (int Y) j" "index_ok (int X) i"
  shows "\<exists>a'. assign_site a k j i v = Inr a' \<and>
           arr_is a' T Z Y X (\<lambda>t2 k2 j2 i2.
              if k2 = wrap_index (int Z) k \<and> j2 = wrap_index (int Y) j \<and> i2 = wrap_index (int X) i
              then v else f t2 k2 j2 i2)"
proof -
  from assms have dims: "n_z a = Z" "n_y a = Y" "n_x a = X" by (simp_all add: arr_is_def)
  from norm_index_ok[OF assms(2)] norm_index_ok[OF assms(3)] norm_index_ok[OF assms(4)]
  have n: "norm_index Z k = Inr (wrap_index (int Z) k)" "wrap_index (int Z) k < Z"
    "norm_index Y j = Inr (wrap_index (int Y) j)" "wrap_index (int Y) j < Y"
    "norm_index X i = Inr (wrap_index (int X) i)" "wrap_index (int X) i < X"
    by simp_all
  show ?thesis
    using assms(1) n(2,4,6)
    by (auto simp: assign_site_def dims n(1,3,5) bindE_def arr_is_def nth_list_update)
qed

lemma assign_site_bad:
  assumes "\<not> index_ok (int (n_z a)) k \<or> \<not> index_ok (int (n_y a)) j \<or> \<not> index_ok (int (n_x a)) i"
  shows "assign_site a k j i v = Inl IndexError"
  using assms
  by (auto simp: assign_site_def bindE_def norm_index_bad split: sum.splits)
     (auto simp: norm_index_def split: if_splits)

lemma river_arrays_add_river:
  "river_arrays g locs dl props name =
     bindE (np_full (num_steps g) (Nz g) (Ny g) (Nx g) 0) (\<lambda>flux_data.
     bindE (np_full (num_steps g) (Nz g) (Ny g) (Nx g) (- 999)) (\<lambda>value_data.
     bindE (dict_item (map_of props) name) (\<lambda>tracer_values.
       for_each (add_river dl tracer_values) (py_enumerate locs) (flux_data, value_data))))"
  by (simp add: river_arrays_def add_river_def)

lemma py_getitem_in_range:
  "0 \<le> r \<Longrightarrow> r < int (length xs) \<Longrightarrow> py_getitem xs r = Inr (xs ! nat r)"
  by (simp add: py_getitem_def norm_index_def bindE_def)

lemma add_river_arr:
  assumes fl: "arr_is fl T Z Y X f" and va: "arr_is va T Z Y X h"
    and dims: "int Z = Nz g" "int Y = Ny g" "int X = Nx g"
    and r: "0 \<le> r" "r < int (length dl)" "r < int (length tv)"
    and ok: "site_ok g s"
  shows "\<exists>fl' va'. add_river dl tv (r, s) (fl, va) = Inr (fl', va') \<and>
     arr_is fl' T Z Y X (\<lambda>t k j i. if site_cell g s = (k, j, i) then dl ! nat r else f t k j i) \<and>
     arr_is va' T Z Y X (\<lambda>t k j i. if site_cell g s = (k, j, i) then tv ! nat r else h t k j i)"
proof -
  obtain i j k where s: "s = (i, j, k)" by (cases s)
  from ok s dims have ix: "index_ok (int Z) k" "index_ok (int Y) j" "index_ok (int X) i"
    by (simp_all add: site_ok_def)
  from assign_site_arr[OF fl ix, of "dl ! nat r"] obtain fl' where
    f1: "assign_site fl k j i (dl ! nat r) = Inr fl'"
    and f2: "arr_is fl' T Z Y X (\<lambda>t2 k2 j2 i2.
              if k2 = wrap_index (int Z) k \<and> j2 = wrap_index (int Y) j \<and> i2 = wrap_index (int X) i
              then dl ! nat r else f t2 k2 j2 i2)"
    by blast
  from assign_site_arr[OF va ix, of "tv ! nat r"] obtain va' where
    v1: "assign_site va k j i (tv ! nat r) = Inr va'"
    and v2: "arr_is va' T Z Y X (\<lambda>t2 k2 j2 i2.
              if k2 = wrap_index (int Z) k \<and> j2 = wrap_index (int Y) j \<and> i2 = wrap_index (int X) i
              then tv ! nat r else h t2 k2 j2 i2)"
    by blast
  have f3: "arr_is fl' T Z Y X (\<lambda>t k j i. if site_cell g s = (k, j, i) then dl ! nat r else f t k j i)"
    by (rule arr_is_cong[OF f2]) (auto simp: s site_cell_def dims)
  have v3: "arr_is va' T Z Y X (\<lambda>t k j i. if site_cell g s = (k, j, i) then tv ! nat r else h t k j i)"
    by (rule arr_is_cong[OF v2]) (auto simp: s site_cell_def dims)
  show ?thesis
    using f1 v1 f3 v3 r by (simp add: add_river_def s py_getitem_in_range bindE_def)
qed

lemma site_writes_snoc:
  "site_writes g vals (es @ [(r, s)]) c old =
     (if site_cell g s = c then vals ! nat r else site_writes g vals es c old)"
  by (simp add: site_writes_def)

lemma river_loop_arr:
  assumes fl: "arr_is fl T Z Y X f" and va: "arr_is va T Z Y X h"
    and dims: "int Z = Nz g" "int Y = Ny g" "int X = Nx g"
    and es: "\<forall>(r, s) \<in> set es. 0 \<le> r \<and> r < int (length dl) \<and> r < int (length tv) \<and> site_ok g s"
  shows "\<exists>fl' va'. for_each (add_river dl tv) es (fl, va) = Inr (fl', va') \<and>
     arr_is fl' T Z Y X (\<lambda>t k j i. site_writes g dl es (k, j, i) (f t k j i)) \<and>
     arr_is va' T Z Y X (\<lambda>t k j i. site_writes g tv es (k, j, i) (h t k j i))"
proof -
  define Q where "Q = (\<lambda>(pre :: (int \<times> site) list) (st :: ndarray \<times> ndarray).
     arr_is (fst st) T Z Y X (\<lambda>t k j i. site_writes g dl pre (k, j, i) (f t k j i)) \<and>
     arr_is (snd st) T Z Y X (\<lambda>t k j i. site_writes g tv pre (k, j, i) (h t k j i)))"
  have "\<exists>s'. for_each (add_river dl tv) es (fl, va) = Inr s' \<and> Q es s'"
  proof (rule for_each_rule[where Q = Q])
    show "Q [] (fl, va)" using fl va by (simp add: Q_def site_writes_def)
  next
    fix pre x post s1
    assume xs: "es = pre @ x # post" and q: "Q pre s1"
    obtain fl1 va1 where s1: "s1 = (fl1, va1)" by (cases s1)
    obtain r s where x: "x = (r, s)" by (cases x)
    from xs x es have r: "0 \<le> r" "r < int (length dl)" "r < int (length tv)" and ok: "site_ok g s"
      by auto
    from q s1 have a: "arr_is fl1 T Z Y X (\<lambda>t k j i. site_writes g dl pre (k, j, i) (f t k j i))"
      and b: "arr_is va1 T Z Y X (\<lambda>t k j i. site_writes g tv pre (k, j, i) (h t k j i))"
      by (simp_all add: Q_def)
    from add_river_arr[OF a b dims r ok] obtain fl2 va2 where
      "add_river dl tv (r, s) (fl1, va1) = Inr (fl2, va2)"
      "arr_is fl2 T Z Y X (\<lambda>t k j i. if site_cell g s = (k, j, i) then dl ! nat r
          else site_writes g dl pre (k, j, i) (f t k j i))"
      "arr_is va2 T Z Y X (\<lambda>t k j i. if site_cell g s = (k, j, i) then tv ! nat r
          else site_writes g tv pre (k, j, i) (h t k j i))"
      by blast
    then show "\<exists>s2. add_river dl tv x s1 = Inr s2 \<and> Q (pre @ [x]) s2"
      by (simp add: s1 x Q_def site_writes_snoc)
  qed
  then show ?thesis by (auto simp: Q_def)
qed

lemma py_enumerate_snoc:
  "py_enumerate (xs @ [x]) = py_enumerate xs @ [(int (length xs), x)]"
  by (simp add: py_enumerate_def)

lemma py_enumerate_set:
  "(r, s) \<in> set (py_enumerate xs) \<longleftrightarrow> 0 \<le> r \<and> r < int (length xs) \<and> s = xs ! nat r"
  by (induction xs rule: rev_induct)
     (auto simp: py_enumerate_snoc py_enumerate_def nth_append)

lemma site_writes_none:
  "\<forall>r < length locs. site_cell g (locs ! r) \<noteq> c \<Longrightarrow>
   site_writes g vals (py_enumerate locs) c old = old"
proof (induction locs rule: rev_induct)
  case Nil
  show ?case by (simp add: py_enumerate_def site_writes_def)
next
  case (snoc s locs)
  have "\<forall>r < length locs. site_cell g (locs ! r) \<noteq> c"
    using snoc.prems by (auto simp: nth_append split: if_splits dest!: spec)
  moreover have "site_cell g s \<noteq> c"
    using snoc.prems[rule_format, of "length locs"] by simp
  ultimately show ?case
    using snoc.IH by (simp add: py_enumerate_snoc site_writes_snoc)
qed

lemma site_writes_last:
  assumes "r < length locs" "site_cell g (locs ! r) = c"
    and "\<forall>r' < length locs. r < r' \<longrightarrow> site_cell g (locs ! r') \<noteq> c"
  shows "site_writes g vals (py_enumerate locs) c old = vals ! r"
  using assms
proof (induction locs rule: rev_induct)
  case Nil
  then show ?case by simp
next
  case (snoc s locs)
  show ?case
  proof (cases "r = length locs")
    case True
    then show ?thesis
      using snoc.prems(2) by (simp add: py_enumerate_snoc site_writes_snoc)
  next
    case False
    with snoc.prems(1) have r: "r < length locs" by simp
    have miss: "site_cell g s \<noteq> c"
      using snoc.prems(3)[rule_format, of "length locs"] r by simp
    have hit: "site_cell g (locs ! r) = c"
      using snoc.prems(2) r by (simp add: nth_append)
    have later: "\<forall>r' < length locs. r < r' \<longrightarrow> site_cell g (locs ! r') \<noteq> c"
    proof (intro allI impI)
      fix r' assume "r' < length locs" "r < r'"
      then show "site_cell g (locs ! r') \<noteq> c"
        using snoc.prems(3)[rule_format, of r'] by (simp add: nth_append)
    qed
    from snoc.IH[OF r hit later] miss show ?thesis
      by (simp add: py_enumerate_snoc site_writes_snoc)
  qed
qed

lemma river_arrays_arr:
  assumes dims: "0 \<le> num_steps g" "0 \<le> Nz g" "0 \<le> Ny g" "0 \<le> Nx g"
    and tv: "map_of props name = Some tv"
    and len: "length dl = length locs" "length tv = length locs"
    and ok: "\<forall>s \<in> set locs. site_ok g s"
  shows "\<exists>fl va. river_arrays g locs dl props name = Inr (fl, va) \<and>
     arr_is fl (nat (num_steps g)) (nat (Nz g)) (nat (Ny g)) (nat (Nx g))
        (\<lambda>t k j i. site_writes g dl (py_enumerate locs) (k, j, i) 0) \<and>
     arr_is va (nat (num_steps g)) (nat (Nz g)) (nat (Ny g)) (nat (Nx g))
        (\<lambda>t k j i. site_writes g tv (py_enumerate locs) (k, j, i) (- 999))"
proof -
  from np_full_arr[OF dims, of 0] obtain f0 where
    f0: "np_full (num_steps g) (Nz g) (Ny g) (Nx g) 0 = Inr f0"
    and a0: "arr_is f0 (nat (num_steps g)) (nat (Nz g)) (nat (Ny g)) (nat (Nx g)) (\<lambda>_ _ _ _. 0)"
    by blast
  from np_full_arr[OF dims, of "- 999"] obtain v0 where
    v0: "np_full (num_steps g) (Nz g) (Ny g) (Nx g) (- 999) = Inr v0"
    and b0: "arr_is v0 (nat (num_steps g)) (nat (Nz g)) (nat (Ny g)) (nat (Nx g)) (\<lambda>_ _ _ _. - 999)"
    by blast
  have es: "\<forall>(r, s) \<in> set (py_enumerate locs).
              0 \<le> r \<and> r < int (length dl) \<and> r < int (length tv) \<and> site_ok g s"
    using len ok by (auto simp: py_enumerate_set)
  have d: "int (nat (Nz g)) = Nz g" "int (nat (Ny g)) = Ny g" "int (nat (Nx g)) = Nx g"
    using dims by simp_all
  from river_loop_arr[OF a0 b0 d es] show ?thesis
    by (simp add: river_arrays_add_river f0 v0 bindE_def dict_item_def tv)
qed

lemma site_cell_in_grid:
  assumes "0 \<le> i" "0 \<le> j" "0 \<le> k"
  shows "site_cell g (i, j, k) = (k', j', i') \<longleftrightarrow> (i, j, k) = (int i', int j', int k')"
  using assms by (auto simp: site_cell_def wrap_index_def)

lemma add_river_bad:
  assumes fl: "arr_is fl T Z Y X f"
    and dims: "int Z = Nz g" "int Y = Ny g" "int X = Nx g"
    and r: "0 \<le> r" "r < int (length dl)" "r < int (length tv)"
    and bad: "\<not> site_ok g s"
  shows "add_river dl tv (r, s) (fl, va) = Inl IndexError"
proof -
  obtain i j k where s: "s = (i, j, k)" by (cases s)
  from fl have sh: "n_z fl = Z" "n_y fl = Y" "n_x fl = X" by (simp_all add: arr_is_def)
  from bad s dims sh
  have "\<not> index_ok (int (n_z fl)) k \<or> \<not> index_ok (int (n_y fl)) j \<or> \<not> index_ok (int (n_x fl)) i"
    by (auto simp: site_ok_def)
  from assign_site_bad[OF this] show ?thesis
    using r by (simp add: add_river_def s py_getitem_in_range bindE_def)
qed

lemma river_loop_bad:
  assumes "arr_is fl T Z Y X f" "arr_is va T Z Y X h"
    and dims: "int Z = Nz g" "int Y = Ny g" "int X = Nx g"
    and es: "\<forall>(r, s) \<in> set es. 0 \<le> r \<and> r < int (length dl) \<and> r < int (length tv)"
    and bad: "\<exists>(r, s) \<in> set es. \<not> site_ok g s"
  shows "for_each (add_river dl tv) es (fl, va) = Inl IndexError"
  using assms(1,2) es bad
proof (induction es arbitrary: fl va f h)
  case Nil
  then show ?case by simp
next
  case (Cons x es)
  obtain r s where x: "x = (r, s)" by (cases x)
  from Cons.prems(3) x have r: "0 \<le> r" "r < int (length dl)" "r < int (length tv)" by auto
  show ?case
  proof (cases "site_ok g s")
    case False
    from add_river_bad[OF Cons.prems(1) dims r False] show ?thesis
      by (simp add: x bindE_def)
  next
    case True
    from add_river_arr[OF Cons.prems(1,2) dims r True] obtain fl' va' where
      step: "add_river dl tv (r, s) (fl, va) = Inr (fl', va')"
      and a: "arr_is fl' T Z Y X (\<lambda>t k j i. if site_cell g s = (k, j, i) then dl ! nat r else f t k j i)"
      and b: "arr_is va' T Z Y X (\<lambda>t k j i. if site_cell g s = (k, j, i) then tv ! nat r else h t k j i)"
      by blast
    have es': "\<forall>(r, s) \<in> set es. 0 \<le> r \<and> r < int (length dl) \<and> r < int (length tv)"
      using Cons.prems(3) by auto
    have bad': "\<exists>(r, s) \<in> set es. \<not> site_ok g s"
      using Cons.prems(4) True x by auto
    from Cons.IH[OF a b es' bad'] show ?thesis
      by (simp add: x step bindE_def)
  qed
qed

lemma river_arrays_bad:
  assumes dims: "0 \<le> num_steps g" "0 \<le> Nz g" "0 \<le> Ny g" "0 \<le> Nx g"
    and tv: "map_of props name = Some tv"
    and len: "length dl = length locs" "length tv = length locs"
    and bad: "\<exists>s \<in> set locs. \<not> site_ok g s"
  shows "river_arrays g locs dl props name = Inl IndexError"
proof -
  from np_full_arr[OF dims, of 0] obtain f0 where
    f0: "np_full (num_steps g) (Nz g) (Ny g) (Nx g) 0 = Inr f0"
    and a0: "arr_is f0 (nat (num_steps g)) (nat (Nz g)) (nat (Ny g)) (nat (Nx g)) (\<lambda>_ _ _ _. 0)"
    by blast
  from np_full_arr[OF dims, of "- 999"] obtain v0 where
    v0: "np_full (num_steps g) (Nz g) (Ny g) (Nx g) (- 999) = Inr v0"
    and b0: "arr_is v0 (nat (num_steps g)) (nat (Nz g)) (nat (Ny g)) (nat (Nx g)) (\<lambda>_ _ _ _. - 999)"
    by blast
  have es: "\<forall>(r, s) \<in> set (py_enumerate locs). 0 \<le> r \<and> r < int (length dl) \<and> r < int (length tv)"
    using len by (auto simp: py_enumerate_set)
  from bad obtain s where s: "s \<in> set locs" "\<not> site_ok g s" by blast
  then obtain r where "r < length locs" "locs ! r = s" by (auto simp: in_set_conv_nth)
  then have "(int r, s) \<in> set (py_enumerate locs)" by (simp add: py_enumerate_set)
  with s(2) have bad': "\<exists>(r, s) \<in> set (py_enumerate locs). \<not> site_ok g s" by blast
  have d: "int (nat (Nz g)) = Nz g" "int (nat (Ny g)) = Ny g" "int (nat (Nx g)) = Nx g"
    using dims by simp_all
  from river_loop_bad[OF a0 b0 d es bad'] show ?thesis
    by (simp add: river_arrays_add_river f0 v0 bindE_def dict_item_def tv)
qed

lemma site_cell_in_range:
  assumes "site_ok g s" "site_cell g s = (k, j, i)"
  shows "k < nat (Nz g) \<and> j < nat (Ny g) \<and> i < nat (Nx g)"
  using assms by (cases s) (auto simp: site_ok_def index_ok_def site_cell_def wrap_index_def)

lemma validate_tracers_ok:
  "\<forall>name \<in> set ts. \<exists>vals. map_of props name = Some vals \<and> length vals = n \<Longrightarrow>
   validate_tracers props n ts = Inr ()"
  by (induction ts) (auto simp: bindE_def dict_item_def)

lemma validate_tracers_bad:
  assumes "\<forall>name \<in> set ts. map_of props name \<noteq> None"
    and "\<exists>name \<in> set ts. \<exists>vals. map_of props name = Some vals \<and> length vals \<noteq> n"
  shows "\<exists>x \<in> set ts. (\<exists>vals. map_of props x = Some vals \<and> length vals \<noteq> n) \<and>
           validate_tracers props n ts =
             Inl (AssertionError (''Number of '' @ x @ '' values must match number of rivers''))"
  using assms
proof (induction ts)
  case Nil
  then show ?case by simp
next
  case (Cons a ts)
  from Cons.prems(1) obtain vals where vals: "map_of props a = Some vals" by auto
  show ?case
  proof (cases "length vals = n")
    case True
    with Cons.prems(2) vals
    have "\<exists>name \<in> set ts. \<exists>vals. map_of props name = Some vals \<and> length vals \<noteq> n" by auto
    with Cons.IH Cons.prems(1) obtain x where "x \<in> set ts"
      "\<exists>vals. map_of props x = Some vals \<and> length vals \<noteq> n"
      "validate_tracers props n ts =
         Inl (AssertionError (''Number of '' @ x @ '' values must match number of rivers''))"
      by auto
    then show ?thesis
      using vals True by (auto simp: bindE_def dict_item_def)
  next
    case False
    then show ?thesis
      using vals by (auto simp: bindE_def dict_item_def)
  qed
qed

subsection \<open>The claims on the river procedure\<close>

text \<open>Unfolding rules for evaluating the river builder on a concrete input.\<close>

lemmas river_eval =
  river_arrays_def np_full_def bindE_def dict_item_def py_enumerate_def py_getitem_def
  assign_site_def norm_index_def cell_def upt_rec numeral_2_eq_2 numeral_3_eq_3

text \<open>
  C5. A river build for a tracer whose list, like the discharge list, has one entry per
  site, all sites inside the grid (\<open>0 \<le> i < nx\<close>, \<open>0 \<le> j < ny\<close>, \<open>0 \<le> k < nz\<close>), succeeds,
  and at every cell \<open>[t, k, j, i]\<close>: if \<open>r\<close> is the last index of a site with coordinates
  \<open>(i, j, k)\<close>, the flux is the discharge of site \<open>r\<close> and the value its tracer value; if no
  site has these coordinates, the flux is \<open>0\<close> and the value \<open>-999\<close>; and both are the same
  at every other time step.
\<close>

theorem river_cells:
  assumes tv: "map_of props name = Some tv"
    and len: "length dl = length locs" "length tv = length locs"
    and grid: "\<forall>(i, j, k) \<in> set locs. 0 \<le> i \<and> i < Nx g \<and> 0 \<le> j \<and> j < Ny g \<and> 0 \<le> k \<and> k < Nz g"
    and cell: "t < nat (num_steps g)" "k < nat (Nz g)" "j < nat (Ny g)" "i < nat (Nx g)"
  shows "\<exists>fl va. river_arrays g locs dl props name = Inr (fl, va) \<and>
     (\<forall>r < length locs.
        locs ! r = (int i, int j, int k) \<and>
        (\<forall>r' < length locs. r < r' \<longrightarrow> locs ! r' \<noteq> (int i, int j, int k)) \<longrightarrow>
        cell fl t k j i = dl ! r \<and> cell va t k j i = tv ! r) \<and>
     ((\<forall>r < length locs. locs ! r \<noteq> (int i, int j, int k)) \<longrightarrow>
        cell fl t k j i = 0 \<and> cell va t k j i = - 999) \<and>
     (\<forall>t' < nat (num_steps g).
        cell fl t' k j i = cell fl t k j i \<and> cell va t' k j i = cell va t k j i)"
proof -
  have dims: "0 \<le> num_steps g" "0 \<le> Nz g" "0 \<le> Ny g" "0 \<le> Nx g"
    using cell by auto
  have ok: "\<forall>s \<in> set locs. site_ok g s"
    using grid by (auto simp: site_ok_def index_ok_def)
  from river_arrays_arr[OF dims tv len ok] obtain fl va where
    r: "river_arrays g locs dl props name = Inr (fl, va)"
    and a: "arr_is fl (nat (num_steps g)) (nat (Nz g)) (nat (Ny g)) (nat (Nx g))
        (\<lambda>t k j i. site_writes g dl (py_enumerate locs) (k, j, i) 0)"
    and b: "arr_is va (nat (num_steps g)) (nat (Nz g)) (nat (Ny g)) (nat (Nx g))
        (\<lambda>t k j i. site_writes g tv (py_enumerate locs) (k, j, i) (- 999))"
    by blast
  have cf: "cell fl t' k j i = site_writes g dl (py_enumerate locs) (k, j, i) 0"
    and cv: "cell va t' k j i = site_writes g tv (py_enumerate locs) (k, j, i) (- 999)"
    if "t' < nat (num_steps g)" for t'
    using arr_is_cell[OF a that cell(2-4)] arr_is_cell[OF b that cell(2-4)] by simp_all
  have same: "site_cell g (locs ! r) = (k, j, i) \<longleftrightarrow> locs ! r = (int i, int j, int k)"
    if "r < length locs" for r
  proof -
    obtain i' j' k' where s: "locs ! r = (i', j', k')" by (cases "locs ! r")
    have "(i', j', k') \<in> set locs" using that s by (metis nth_mem)
    with grid have "0 \<le> i'" "0 \<le> j'" "0 \<le> k'" by auto
    from site_cell_in_grid[OF this] show ?thesis by (simp add: s)
  qed
  have hit: "cell fl t k j i = dl ! r \<and> cell va t k j i = tv ! r"
    if rr: "r < length locs" and at: "locs ! r = (int i, int j, int k)"
      and last: "\<forall>r' < length locs. r < r' \<longrightarrow> locs ! r' \<noteq> (int i, int j, int k)" for r
  proof -
    have 1: "site_cell g (locs ! r) = (k, j, i)" using same[OF rr] at by simp
    have 2: "\<forall>r' < length locs. r < r' \<longrightarrow> site_cell g (locs ! r') \<noteq> (k, j, i)"
      using last same by simp
    show ?thesis
      using site_writes_last[OF rr 1 2] cf[OF cell(1)] cv[OF cell(1)] by simp
  qed
  have miss: "cell fl t k j i = 0 \<and> cell va t k j i = - 999"
    if none: "\<forall>r < length locs. locs ! r \<noteq> (int i, int j, int k)"
  proof -
    have "\<forall>r < length locs. site_cell g (locs ! r) \<noteq> (k, j, i)"
      using none same by simp
    from site_writes_none[OF this] show ?thesis
      using cf[OF cell(1)] cv[OF cell(1)] by simp
  qed
  have const: "cell fl t' k j i = cell fl t k j i \<and> cell va t' k j i = cell va t k j i"
    if "t' < nat (num_steps g)" for t'
    using cf[OF that] cv[OF that] cf[OF cell(1)] cv[OF cell(1)] by simp
  from r hit miss const show ?thesis by blast
qed

theorem river_cells_witness:
  "\<exists>fl va. river_arrays \<lparr>Nx = 2, Ny = 2, Nz = 1, start_date = '''', time_step_hours = 1,
        num_steps = 2, times = [0, 3600]\<rparr> [(1, 1, 0), (0, 1, 0), (1, 1, 0)] [100, 30, 50]
        [(''discharge'', [100, 30, 50]), (''T'', [8, 6, 7])] ''T'' = Inr (fl, va) \<and>
      cell fl 0 0 1 1 = 50 \<and> cell va 0 0 1 1 = 7 \<and>
      cell fl 1 0 1 1 = 50 \<and> cell va 1 0 1 1 = 7 \<and>
      cell fl 0 0 1 0 = 30 \<and> cell va 0 0 1 0 = 6 \<and>
      cell fl 0 0 0 0 = 0 \<and> cell va 0 0 0 0 = - 999"
  using river_cells[of "[(''discharge'', [100, 30, 50]), (''T'', [8, 6, 7])]" "''T''" "[8, 6, 7]"
      "[100, 30, 50]" "[(1, 1, 0), (0, 1, 0), (1, 1, 0)]"
      "\<lparr>Nx = 2, Ny = 2, Nz = 1, start_date = '''', time_step_hours = 1,
        num_steps = 2, times = [0, 3600]\<rparr>" 0 0 1 1]
  by (simp add: river_eval)

text \<open>
  C6. When the discharge list, or the list of any tracer, has a length other than the
  number of sites, the river procedure stops with the failed assertion whose message
  names a key with such a list (\<open>discharge\<close> exactly when its list is one), and the dataset
  then holds only the dimensions and the time variable: no flux or value variable was
  created and no array built. The failed assertion is what the specification calls
  MismatchedLengths.
\<close>

theorem river_length_mismatch:
  assumes keys: "distinct (map fst props)"
    and disch: "map_of props ''discharge'' = Some dl"
    and bad: "length dl \<noteq> length locs \<or>
              (\<exists>(name, vals) \<in> set props. name \<noteq> ''discharge'' \<and> length vals \<noteq> length locs)"
  shows "\<exists>x. (x = ''discharge'' \<longleftrightarrow> length dl \<noteq> length locs) \<and>
           (\<exists>vals. (x, vals) \<in> set props \<and> length vals \<noteq> length locs) \<and>
           create_river_file g filepath locs props =
             Inl (AssertionError (''Number of '' @ x @ '' values must match number of rivers''),
                  open_dataset g filepath)"
proof (cases "length dl = length locs")
  case False
  have "(''discharge'', dl) \<in> set props" using disch by (rule map_of_SomeD)
  moreover have "create_river_file g filepath locs props =
      Inl (AssertionError (''Number of '' @ ''discharge'' @ '' values must match number of rivers''),
           open_dataset g filepath)"
    using False disch by (simp add: create_river_file_def dict_item_def Let_def)
  ultimately show ?thesis using False by blast
next
  case True
  let ?ts = "filter (\<lambda>key. key \<noteq> ''discharge'') (map fst props)"
  from True bad obtain name vals where nv: "(name, vals) \<in> set props" "name \<noteq> ''discharge''"
    "length vals \<noteq> length locs" by auto
  have found: "map_of props name = Some vals"
    using keys nv(1) by simp
  have 1: "\<forall>name \<in> set ?ts. map_of props name \<noteq> None"
    by (auto simp: map_of_eq_None_iff)
  have 2: "\<exists>name \<in> set ?ts. \<exists>vals. map_of props name = Some vals \<and> length vals \<noteq> length locs"
    using nv found by force
  from validate_tracers_bad[OF 1 2] obtain x where
    xt: "x \<in> set ?ts"
    and x: "\<exists>vals. map_of props x = Some vals \<and> length vals \<noteq> length locs"
    and v: "validate_tracers props (length locs) ?ts =
             Inl (AssertionError (''Number of '' @ x @ '' values must match number of rivers''))"
    by blast
  from x have "\<exists>vals. (x, vals) \<in> set props \<and> length vals \<noteq> length locs"
    by (auto dest: map_of_SomeD)
  moreover have "create_river_file g filepath locs props =
      Inl (AssertionError (''Number of '' @ x @ '' values must match number of rivers''),
           open_dataset g filepath)"
    using True disch v by (simp add: create_river_file_def dict_item_def Let_def)
  moreover have "x \<noteq> ''discharge''" using xt by simp
  ultimately show ?thesis using True by blast
qed

theorem river_length_mismatch_witness:
  "create_river_file \<lparr>Nx = 2, Ny = 2, Nz = 1, start_date = '''', time_step_hours = 1,
        num_steps = 1, times = [0]\<rparr> ''r.nc'' [(1, 1, 0), (0, 0, 0)]
        [(''discharge'', [100, 50]), (''T'', [8, 7]), (''S'', [1])] =
     Inl (AssertionError ''Number of S values must match number of rivers'',
          [CreateDataset ''r.nc'',
           CreateDimension ''Nx'' (Some 2), CreateDimension ''Ny'' (Some 2),
           CreateDimension ''Nz'' (Some 1), CreateDimension ''time'' None,
           CreateVariable ''time'', WriteVariable ''time'' (Series [0])])"
  using river_length_mismatch[of "[(''discharge'', [100, 50]), (''T'', [8, 7]), (''S'', [1])]"
      "[100, 50]" "[(1, 1, 0), (0, 0, 0)]"
      "\<lparr>Nx = 2, Ny = 2, Nz = 1, start_date = '''', time_step_hours = 1,
        num_steps = 1, times = [0]\<rparr>" "''r.nc''"]
  by (simp add: create_river_file_def open_dataset_def dict_item_def bindE_def)

text \<open>
  C10. Site coordinates are not checked. With matching lengths, no negative grid extent
  and at least one tracer: if some site has \<open>i \<ge> nx\<close>, \<open>j \<ge> ny\<close> or \<open>k \<ge> nz\<close>, the procedure
  stops with IndexError in the array assignment of the first tracer, when the file, its
  dimensions, the time variable and that tracer's two variables exist and nothing has been
  written for it. If instead every component \<open>c\<close> of every site satisfies
  \<open>-extent \<le> c < extent\<close>, the arrays of every tracer are built without error, and the
  last site whose wrapped coordinates (\<open>extent + c\<close> for a negative \<open>c\<close>) name a cell has its
  discharge and tracer value there at every time step.
\<close>

theorem river_sites_unchecked:
  assumes disch: "map_of props ''discharge'' = Some dl"
    and len: "\<forall>(name, vals) \<in> set props. length vals = length locs"
    and dims: "0 \<le> num_steps g" "0 \<le> Nz g" "0 \<le> Ny g" "0 \<le> Nx g"
    and tracers: "filter (\<lambda>key. key \<noteq> ''discharge'') (map fst props) = first # rest"
  shows "((\<exists>(i, j, k) \<in> set locs. Nx g \<le> i \<or> Ny g \<le> j \<or> Nz g \<le> k) \<longrightarrow>
            create_river_file g filepath locs props =
              Inl (IndexError,
                   open_dataset g filepath @ [CreateVariable (first @ ''_flux''), CreateVariable first])) \<and>
         ((\<forall>s \<in> set locs. site_ok g s) \<longrightarrow>
            (\<forall>name \<in> set (first # rest). \<exists>fl va tv.
               map_of props name = Some tv \<and>
               river_arrays g locs dl props name = Inr (fl, va) \<and>
               (\<forall>r < length locs. \<forall>k j i.
                  site_cell g (locs ! r) = (k, j, i) \<and>
                  (\<forall>r' < length locs. r < r' \<longrightarrow> site_cell g (locs ! r') \<noteq> (k, j, i)) \<longrightarrow>
                  (\<forall>t < nat (num_steps g). cell fl t k j i = dl ! r \<and> cell va t k j i = tv ! r))))"
proof -
  let ?ts = "filter (\<lambda>key. key \<noteq> ''discharge'') (map fst props)"
  have lookup: "\<exists>vals. map_of props name = Some vals \<and> length vals = length locs"
    if "name \<in> set ?ts" for name
  proof -
    from that have "name \<in> fst ` set props" by auto
    then obtain vals where v: "map_of props name = Some vals"
      by (cases "map_of props name") (auto simp: map_of_eq_None_iff)
    then have "(name, vals) \<in> set props" by (rule map_of_SomeD)
    with len v show ?thesis by auto
  qed
  have dl: "length dl = length locs"
    using map_of_SomeD[OF disch] len by auto
  have valid: "validate_tracers props (length locs) ?ts = Inr ()"
    by (rule validate_tracers_ok) (use lookup in blast)
  have part1: "create_river_file g filepath locs props =
              Inl (IndexError,
                   open_dataset g filepath @ [CreateVariable (first @ ''_flux''), CreateVariable first])"
    if out: "\<exists>(i, j, k) \<in> set locs. Nx g \<le> i \<or> Ny g \<le> j \<or> Nz g \<le> k"
  proof -
    from out obtain i j k where s: "(i, j, k) \<in> set locs"
      and big: "Nx g \<le> i \<or> Ny g \<le> j \<or> Nz g \<le> k" by auto
    from big have "\<not> site_ok g (i, j, k)" by (auto simp: site_ok_def index_ok_def)
    with s have bad: "\<exists>s \<in> set locs. \<not> site_ok g s" by blast
    from lookup[of first] tracers obtain tv where
      tv: "map_of props first = Some tv" "length tv = length locs" by auto
    from river_arrays_bad[OF dims tv(1) dl tv(2) bad]
    have "river_arrays g locs dl props first = Inl IndexError" .
    then show ?thesis
      using disch dl valid tracers
      by (simp add: create_river_file_def dict_item_def Let_def)
  qed
  have part2: "\<exists>fl va tv.
               map_of props name = Some tv \<and>
               river_arrays g locs dl props name = Inr (fl, va) \<and>
               (\<forall>r < length locs. \<forall>k j i.
                  site_cell g (locs ! r) = (k, j, i) \<and>
                  (\<forall>r' < length locs. r < r' \<longrightarrow> site_cell g (locs ! r') \<noteq> (k, j, i)) \<longrightarrow>
                  (\<forall>t < nat (num_steps g). cell fl t k j i = dl ! r \<and> cell va t k j i = tv ! r))"
    if ok: "\<forall>s \<in> set locs. site_ok g s" and name: "name \<in> set (first # rest)" for name
  proof -
    from lookup[of name] tracers name obtain tv where
      tv: "map_of props name = Some tv" "length tv = length locs" by auto
    from river_arrays_arr[OF dims tv(1) dl tv(2) ok] obtain fl va where
      r: "river_arrays g locs dl props name = Inr (fl, va)"
      and a: "arr_is fl (nat (num_steps g)) (nat (Nz g)) (nat (Ny g)) (nat (Nx g))
          (\<lambda>t k j i. site_writes g dl (py_enumerate locs) (k, j, i) 0)"
      and b: "arr_is va (nat (num_steps g)) (nat (Nz g)) (nat (Ny g)) (nat (Nx g))
          (\<lambda>t k j i. site_writes g tv (py_enumerate locs) (k, j, i) (- 999))"
      by blast
    have "cell fl t k j i = dl ! r \<and> cell va t k j i = tv ! r"
      if rr: "r < length locs" and c: "site_cell g (locs ! r) = (k, j, i)"
        and last: "\<forall>r' < length locs. r < r' \<longrightarrow> site_cell g (locs ! r') \<noteq> (k, j, i)"
        and t: "t < nat (num_steps g)" for r k j i t
    proof -
      have "site_ok g (locs ! r)" using ok rr by simp
      from site_cell_in_range[OF this c]
      have rng: "k < nat (Nz g)" "j < nat (Ny g)" "i < nat (Nx g)" by simp_all
      show ?thesis
        using arr_is_cell[OF a t rng] arr_is_cell[OF b t rng]
          site_writes_last[OF rr c last] by simp
    qed
    with tv(1) r show ?thesis by blast
  qed
  from part1 part2 show ?thesis by blast
qed

theorem river_sites_unchecked_witness:
  "create_river_file \<lparr>Nx = 2, Ny = 2, Nz = 1, start_date = '''', time_step_hours = 1,
        num_steps = 1, times = [0]\<rparr> ''r.nc'' [(0, 0, 0), (2, 0, 0)]
        [(''discharge'', [100, 50]), (''T'', [8, 7])] =
     Inl (IndexError,
          [CreateDataset ''r.nc'',
           CreateDimension ''Nx'' (Some 2), CreateDimension ''Ny'' (Some 2),
           CreateDimension ''Nz'' (Some 1), CreateDimension ''time'' None,
           CreateVariable ''time'', WriteVariable ''time'' (Series [0]),
           CreateVariable ''T_flux'', CreateVariable ''T'']) \<and>
   site_ok \<lparr>Nx = 2, Ny = 2, Nz = 1, start_date = '''', time_step_hours = 1,
        num_steps = 1, times = [0]\<rparr> (- 1, 0, 0) \<and>
   site_cell \<lparr>Nx = 2, Ny = 2, Nz = 1, start_date = '''', time_step_hours = 1,
        num_steps = 1, times = [0]\<rparr> (- 1, 0, 0) = (0, 0, 1) \<and>
   river_arrays \<lparr>Nx = 2, Ny = 2, Nz = 1, start_date = '''', time_step_hours = 1,
        num_steps = 1, times = [0]\<rparr> [(0, 0, 0), (- 1, 0, 0)] [100, 50]
        [(''discharge'', [100, 50]), (''T'', [8, 7])] ''T'' =
     Inr (\<lparr>n_t = 1, n_z = 1, n_y = 2, n_x = 2, cells = [[[[100, 50], [0, 0]]]]\<rparr>,
          \<lparr>n_t = 1, n_z = 1, n_y = 2, n_x = 2, cells = [[[[8, 7], [- 999, - 999]]]]\<rparr>)"
  using river_sites_unchecked[of "[(''discharge'', [100, 50]), (''T'', [8, 7])]" "[100, 50]"
      "[(0, 0, 0), (2, 0, 0)]"
      "\<lparr>Nx = 2, Ny = 2, Nz = 1, start_date = '''', time_step_hours = 1,
        num_steps = 1, times = [0]\<rparr>" "''T''" "[]" "''r.nc''"]
    river_sites_unchecked[of "[(''discharge'', [100, 50]), (''T'', [8, 7])]" "[100, 50]"
      "[(0, 0, 0), (- 1, 0, 0)]"
      "\<lparr>Nx = 2, Ny = 2, Nz = 1, start_date = '''', time_step_hours = 1,
        num_steps = 1, times = [0]\<rparr>" "''T''" "[]" "''r.nc''"]
  by (simp add: create_river_file_def open_dataset_def site_ok_def index_ok_def site_cell_def
      wrap_index_def river_eval)

end
